theory Spec2Isabelle
  imports Main "HOL-Library.Char_ord" "HOL-Library.List_Lexorder"
begin

section \<open>Python values and exceptions\<close>

text \<open>
  The pass handles opaque Python objects: update blocks and other callables (function
  objects), callee ports (\<open>CalleePort\<close> instances), the raw bound methods stored in a
  port's \<open>method\<close> attribute, and plain integers (the SCC indices).  Identity is object
  identity, modelled by the constructor and a number.
\<close>

datatype pyobj =
    Func nat
  | Port nat
  | Meth nat
  | PyInt nat

fun isinstance_CalleePort :: "pyobj \<Rightarrow> bool" where
  "isinstance_CalleePort (Port k) = True"
| "isinstance_CalleePort x = False"

datatype exn =
    UpblkCyclicError string
  | PassOrderError string
  | NameError string
  | SyntaxError
  | KeyError
  | IndexError
  | AssertionError
  | Raised string

section \<open>String helpers of the code generator\<close>

text \<open>\<open>sep.join(xs)\<close> of Python.\<close>

fun join :: "string \<Rightarrow> string list \<Rightarrow> string" where
  "join sep [] = []"
| "join sep [x] = x"
| "join sep (x # y # ys) = x @ sep @ join sep (y # ys)"

definition digit_char :: "nat \<Rightarrow> char" where
  "digit_char d = char_of (48 + d)"

text \<open>\<open>"{}".format(n)\<close> for a non-negative integer: its decimal digits.\<close>

function str_of_nat :: "nat \<Rightarrow> string" where
  "str_of_nat n = (if n < 10 then [digit_char n] else str_of_nat (n div 10) @ [digit_char (n mod 10)])"
  by pat_completeness auto
termination
  by (relation "measure (\<lambda>n. n)") auto

section \<open>The fixed-point super-block of a non-trivial SCC\<close>

subsection \<open>Blocks and signals\<close>

text \<open>
  A block is a callable without arguments that mutates the design state \<open>'s\<close>; it
  may raise, and what it wrote before raising stays written.
\<close>

type_synonym 's block = "'s \<Rightarrow> 's \<times> exn option"

text \<open>\<open>for blk in scc: blk()\<close>: the first exception ends the sweep.\<close>

fun run_blocks :: "'s block list \<Rightarrow> 's \<Rightarrow> 's \<times> exn option" where
  "run_blocks [] s = (s, None)"
| "run_blocks (b # bs) s =
     (case b s of
        (s', Some e) \<Rightarrow> (s', Some e)
      | (s', None) \<Rightarrow> run_blocks bs s')"

text \<open>
  A trigger variable is a signal object.  \<open>sig_name\<close> is its \<open>str()\<close> (the expression
  spliced into the generated source) and \<open>sig_type\<close> classifies \<open>var._dsl.Type\<close>.
\<close>

datatype dsl_type = BitsT | BitStructT | OtherT

datatype signal = Signal (sig_name: string) (sig_type: dsl_type)

subsection \<open>The function defined by the template\<close>

text \<open>
  The template of \<open>gen_wrapped_SCCblk\<close>:
  \<^verbatim>\<open>
  def wrapped_SCC_{0}():
    num_iters = 0
    while True:
      num_iters += 1
      {1}
      for blk in scc: blk()
      if {2}: break
      if num_iters > 100:
        raise UpblkCyclicError("Combinational loop detected at runtime in {{{3}}}!")
  \<close>
  \<open>{1}\<close> stores a copy of every trigger variable in a temporary, \<open>{2}\<close> compares every
  variable with its temporary (\<open>var == t\<close>, joined by \<open>and\<close>).  \<open>rd v s\<close> is the value
  of signal \<open>v\<close> in state \<open>s\<close>, and \<open>py_eq v x t\<close> is the outcome of Python's \<open>x == t\<close>
  for the current value \<open>x\<close> of \<open>v\<close> and its copy \<open>t\<close>: the \<open>__eq__\<close> of the type of
  \<open>v\<close>, or identity for a type without one.  The result carries the final state and
  the final value of the local \<open>num_iters\<close>, so that the number of sweeps can be
  observed.
\<close>

definition triggers :: "(signal \<Rightarrow> 's \<Rightarrow> 'v) \<Rightarrow> signal list \<Rightarrow> 's \<Rightarrow> 'v list" where
  "triggers rd vars s = map (\<lambda>v. rd v s) vars"

text \<open>The test \<open>{2}\<close> in state \<open>s'\<close>, for the temporaries taken in state \<open>s\<close>.\<close>

definition unchanged ::
  "(signal \<Rightarrow> 'v \<Rightarrow> 'v \<Rightarrow> bool) \<Rightarrow> (signal \<Rightarrow> 's \<Rightarrow> 'v) \<Rightarrow> signal list \<Rightarrow> 's \<Rightarrow> 's \<Rightarrow> bool" where
  "unchanged py_eq rd vars s s' =
     list_all (\<lambda>(v, t). py_eq v (rd v s') t) (zip vars (triggers rd vars s))"

function wrapped_SCC_loop ::
  "(signal \<Rightarrow> 'v \<Rightarrow> 'v \<Rightarrow> bool) \<Rightarrow> (signal \<Rightarrow> 's \<Rightarrow> 'v) \<Rightarrow> 's block list \<Rightarrow> signal list
     \<Rightarrow> string \<Rightarrow> nat \<Rightarrow> 's \<Rightarrow> 's \<times> nat \<times> exn option" where
  "wrapped_SCC_loop py_eq rd scc vars msg num_iters s =
     (let n = num_iters + 1
      in case run_blocks scc s of
           (s', Some e) \<Rightarrow> (s', n, Some e)
         | (s', None) \<Rightarrow>
             if unchanged py_eq rd vars s s' then (s', n, None)
             else if n > 100 then (s', n, Some (UpblkCyclicError msg))
             else wrapped_SCC_loop py_eq rd scc vars msg n s')"
  by pat_completeness auto
termination
  by (relation "measure (\<lambda>(py_eq, rd, scc, vars, msg, k, s). 101 - k)") auto

declare wrapped_SCC_loop.simps [simp del]

text \<open>
  The message of the error: the format string with \<open>{3}\<close> replaced by
  \<open>", ".join([x.__name__ for x in scc])\<close>, the names of the members of the SCC.
\<close>

definition loop_message_text :: "string \<Rightarrow> string" where
  "loop_message_text joined = ''Combinational loop detected at runtime in {'' @ joined @ ''}!''"

definition loop_message :: "string list \<Rightarrow> string" where
  "loop_message names = loop_message_text (join '', '' names)"

definition wrapped_SCC ::
  "(signal \<Rightarrow> 'v \<Rightarrow> 'v \<Rightarrow> bool) \<Rightarrow> (signal \<Rightarrow> 's \<Rightarrow> 'v) \<Rightarrow> 's block list \<Rightarrow> signal list
     \<Rightarrow> string list \<Rightarrow> 's \<Rightarrow> 's \<times> nat \<times> exn option" where
  "wrapped_SCC py_eq rd scc vars names s =
     wrapped_SCC_loop py_eq rd scc vars (loop_message names) 0 s"

text \<open>One sweep over the intra-SCC order, and the state after \<open>k\<close> sweeps.\<close>

definition sweep :: "'s block list \<Rightarrow> 's \<Rightarrow> 's" where
  "sweep scc s = fst (run_blocks scc s)"

definition sweep_raises :: "'s block list \<Rightarrow> 's \<Rightarrow> bool" where
  "sweep_raises scc s = (snd (run_blocks scc s) \<noteq> None)"

subsection \<open>Generating the source of the super-block\<close>

text \<open>
  The names bound in the module of \<open>passes/autotick/OpenLoopCLPass.py\<close>: its imports
  and its class.  A global name that is neither bound here nor a builtin raises
  \<open>NameError\<close> when it is evaluated.
\<close>

definition module_globals :: "string list" where
  "module_globals =
     [''os'', ''random'', ''deque'', ''py'', ''Bits1'', ''CalleeIfcCL'', ''CalleePort'',
      ''UpblkCyclicError'', ''BasePass'', ''PassMetadata'', ''PassOrderError'',
      ''SimpleSchedulePass'', ''dump_dag'', ''SimpleTickPass'', ''CLLineTracePass'',
      ''CollectSignalPass'', ''PrintWavePass'', ''VcdGenerationPass'', ''OpenLoopCLPass'']"

definition load_global :: "string \<Rightarrow> exn + unit" where
  "load_global name = (if name \<in> set module_globals then Inr () else Inl (NameError name))"

text \<open>
  The loop \<open>for j, var in enumerate(variables)\<close> of the autotick pass.  The test
  \<open>issubclass(var._dsl.Type, Bits)\<close> evaluates the global \<open>Bits\<close>, the test
  \<open>is_bitstruct_class(var._dsl.Type)\<close> the global \<open>is_bitstruct_class\<close>.
\<close>

fun gen_srcs :: "nat \<Rightarrow> signal list \<Rightarrow> exn + (string list \<times> string list)" where
  "gen_srcs j [] = Inr ([], [])"
| "gen_srcs j (var # vars) =
     (case load_global ''Bits'' of
        Inl e \<Rightarrow> Inl e
      | Inr _ \<Rightarrow>
         (case (if sig_type var = BitsT
                then Inr (''t'' @ str_of_nat j @ '' = '' @ sig_name var @ ''.value'')
                else (case load_global ''is_bitstruct_class'' of
                        Inl e \<Rightarrow> Inl e
                      | Inr _ \<Rightarrow>
                          if sig_type var = BitStructT
                          then Inr (''t'' @ str_of_nat j @ '' = '' @ sig_name var @ ''.clone()'')
                          else Inr (''t'' @ str_of_nat j @ '' = deepcopy('' @ sig_name var @ '')''))) of
            Inl e \<Rightarrow> Inl e
          | Inr c \<Rightarrow>
             (case gen_srcs (j + 1) vars of
                Inl e \<Rightarrow> Inl e
              | Inr (copy_srcs, check_srcs) \<Rightarrow>
                  Inr (c # copy_srcs, (sig_name var @ '' == t'' @ str_of_nat j) # check_srcs))))"

text \<open>The same loop in \<open>passes/OpenLoopCLPass.py\<close>: every variable is deep-copied.\<close>

fun gen_srcs_deepcopy :: "nat \<Rightarrow> signal list \<Rightarrow> string list \<times> string list" where
  "gen_srcs_deepcopy j [] = ([], [])"
| "gen_srcs_deepcopy j (var # vars) =
     (case gen_srcs_deepcopy (j + 1) vars of
        (copy_srcs, check_srcs) \<Rightarrow>
          ((''_____tmp_'' @ str_of_nat j @ '' = deepcopy('' @ sig_name var @ '')'') # copy_srcs,
           (sig_name var @ '' == _____tmp_'' @ str_of_nat j) # check_srcs))"

text \<open>
  \<open>template.format(scc_id, copies, checks, names)\<close>: the text of the template with its
  four slots filled, as the list of its lines (the text starts with a line break, and
  every line keeps the indentation it has in the source of the pass).
\<close>

definition template_format :: "nat \<Rightarrow> string \<Rightarrow> string \<Rightarrow> string \<Rightarrow> string list" where
  "template_format scc_id copies checks names =
     [[],
      ''          from copy import deepcopy'',
      ''          def wrapped_SCC_'' @ str_of_nat scc_id @ ''():'',
      ''            num_iters = 0'',
      ''            while True:'',
      ''              num_iters += 1'',
      ''              '' @ copies,
      ''              for blk in scc: # TODO Mamba'',
      ''                blk()'',
      ''              if '' @ checks @ '':'',
      ''                break'',
      ''              if num_iters > 100:'',
      ''                raise UpblkCyclicError('' @ [CHR 0x22] @ loop_message_text names
         @ [CHR 0x22] @ '')'',
      ''            # print '' @ [CHR 0x22] @ ''SCC block'' @ str_of_nat scc_id
         @ '' is executed'' @ [CHR 0x22] @ '', num_iters, '' @ [CHR 0x22] @ ''times''
         @ [CHR 0x22],
      ''          generated_block = wrapped_SCC_'' @ str_of_nat scc_id,
      ''        '']"

text \<open>
  \<open>py.code.Source(src).compile()\<close>: the source is de-indented and compiled.  Of
  Python's grammar the model keeps the one rule the slots can break: an \<open>if\<close> statement
  needs a test expression.
\<close>

definition py_compile :: "string list \<Rightarrow> exn + unit" where
  "py_compile src =
     (if ''if :'' \<in> set (map (dropWhile (\<lambda>c. c = CHR '' '')) src) then Inl SyntaxError
      else Inr ())"

text \<open>\<open>variables.update(xs)\<close> on a set kept in insertion order.\<close>

definition set_update :: "'a list \<Rightarrow> 'a list \<Rightarrow> 'a list" where
  "set_update vars xs = vars @ filter (\<lambda>x. x \<notin> set vars) (remdups xs)"

text \<open>
  \<open>for (u, v) in E: if u in scc and v in scc: variables.update(constraint_objs[(u, v)])\<close>;
  a missing key raises \<open>KeyError\<close>.
\<close>

fun collect_variables ::
  "(pyobj \<times> pyobj) list \<Rightarrow> pyobj list \<Rightarrow> (pyobj \<times> pyobj \<rightharpoonup> signal list) \<Rightarrow> signal list
     \<Rightarrow> exn + signal list" where
  "collect_variables [] scc constraint_objs variables = Inr variables"
| "collect_variables ((u, v) # es) scc constraint_objs variables =
     (if u \<in> set scc \<and> v \<in> set scc
      then (case constraint_objs (u, v) of
              None \<Rightarrow> Inl KeyError
            | Some xs \<Rightarrow> collect_variables es scc constraint_objs (set_update variables xs))
      else collect_variables es scc constraint_objs variables)"

text \<open>Lines 317 to 336 of the autotick pass: the source text of the super-block.\<close>

definition scc_block_src :: "nat \<Rightarrow> signal list \<Rightarrow> string list \<Rightarrow> exn + string list" where
  "scc_block_src scc_id variables names =
     (case gen_srcs 0 variables of
        Inl e \<Rightarrow> Inl e
      | Inr (copy_srcs, check_srcs) \<Rightarrow>
          Inr (template_format scc_id (join ''; '' copy_srcs) (join '' and '' check_srcs)
                 (join '', '' names)))"

text \<open>
  \<open>gen_wrapped_SCCblk(top, tmp_schedule, scc_block_src)\<close>: compile the source and
  return the function it defines, here the semantics \<open>wrapped_SCC\<close> of the template.
\<close>

definition gen_wrapped_SCCblk ::
  "(signal \<Rightarrow> 'v \<Rightarrow> 'v \<Rightarrow> bool) \<Rightarrow> (signal \<Rightarrow> 's \<Rightarrow> 'v) \<Rightarrow> 's block list \<Rightarrow> string list
     \<Rightarrow> signal list \<Rightarrow> string list \<Rightarrow> exn + 's block" where
  "gen_wrapped_SCCblk py_eq rd scc src variables names =
     (case py_compile src of
        Inl e \<Rightarrow> Inl e
      | Inr _ \<Rightarrow>
          Inr (\<lambda>s. case wrapped_SCC py_eq rd scc variables names s of (s', n, r) \<Rightarrow> (s', r)))"

text \<open>
  The synthesis of one super-block by the autotick pass, from the trigger variables to
  the compiled block (lines 278 to 338).  \<open>scc\<close> are the members of the SCC,
  \<open>iter scc\<close> the order in which this set is iterated (\<open>[x.__name__ for x in scc]\<close>),
  \<open>tmp_schedule\<close> is its intra-SCC order.
\<close>

definition synthesize_SCC ::
  "(signal \<Rightarrow> 'v \<Rightarrow> 'v \<Rightarrow> bool) \<Rightarrow> (signal \<Rightarrow> 's \<Rightarrow> 'v) \<Rightarrow> (pyobj \<Rightarrow> 's block) \<Rightarrow> (pyobj \<Rightarrow> string)
     \<Rightarrow> (pyobj list \<Rightarrow> pyobj list) \<Rightarrow> (pyobj \<times> pyobj) list
     \<Rightarrow> (pyobj \<times> pyobj \<rightharpoonup> signal list) \<Rightarrow> nat \<Rightarrow> pyobj list \<Rightarrow> pyobj list
     \<Rightarrow> exn + 's block" where
  "synthesize_SCC py_eq rd exec_of name_of iter E constraint_objs scc_id scc tmp_schedule =
     (case collect_variables E scc constraint_objs [] of
        Inl e \<Rightarrow> Inl e
      | Inr variables \<Rightarrow>
         (case scc_block_src scc_id variables (map name_of (iter scc)) of
            Inl e \<Rightarrow> Inl e
          | Inr src \<Rightarrow>
              gen_wrapped_SCCblk py_eq rd (map exec_of tmp_schedule) src variables
                (map name_of (iter scc))))"

section \<open>The method cursor\<close>

subsection \<open>The state of the root component\<close>

text \<open>
  \<open>design\<close> is everything the blocks and the methods read and write (signals and
  component state).  The pass keeps its cursor in \<open>top._sched.new_schedule_index\<close>
  and \<open>top._sched.orig_schedule_index\<close>, and the cycle counter in
  \<open>top.num_cycles_executed\<close>; all three start at zero.
\<close>

record 'u root =
  design :: 'u
  new_schedule_index :: nat
  orig_schedule_index :: nat
  num_cycles_executed :: nat

definition elaborated :: "'u \<Rightarrow> 'u root" where
  "elaborated u = \<lparr>design = u, new_schedule_index = 0, orig_schedule_index = 0,
                    num_cycles_executed = 0\<rparr>"

text \<open>
  What a call executes, in order: \<open>BlockCall k\<close> is the call
  \<open>schedule_no_method[k]()\<close>, \<open>MethodCall m\<close> the call of the original method of the
  callee port at index \<open>m\<close> of the schedule.
\<close>

datatype event = BlockCall nat | MethodCall nat

text \<open>
  \<open>while i < hi: schedule_no_method[i](); i += 1\<close>, given the indices \<open>[i..<hi]\<close>.
  An index past the end of the list raises \<open>IndexError\<close>; an exception of a block
  ends the loop.
\<close>

fun run_range :: "'u block list \<Rightarrow> nat list \<Rightarrow> 'u \<Rightarrow> 'u \<times> event list \<times> exn option" where
  "run_range schedule_no_method [] u = (u, [], None)"
| "run_range schedule_no_method (k # ks) u =
     (if k < length schedule_no_method
      then (case (schedule_no_method ! k) u of
              (u', Some e) \<Rightarrow> (u', [BlockCall k], Some e)
            | (u', None) \<Rightarrow>
                (case run_range schedule_no_method ks u' of
                   (u'', tr, r) \<Rightarrow> (u'', BlockCall k # tr, r)))
      else (u, [], Some IndexError))"

subsection \<open>The wrapper of a callee port\<close>

text \<open>
  \<open>wrap_method(top, method, my_idx_new, schedule_no_method, my_idx_orig)\<close> of the
  autotick pass returns \<open>actual_method\<close>.  The locals \<open>i\<close> and \<open>j\<close> are written back to
  the cursor only after the method has returned; \<open>top.num_cycles_executed\<close> is
  incremented in place.  The method is called with its arguments already bound.
\<close>

definition actual_method ::
  "'u block list \<Rightarrow> nat \<Rightarrow> nat \<Rightarrow> ('u \<Rightarrow> 'u \<times> (exn + 'r)) \<Rightarrow> 'u root
     \<Rightarrow> 'u root \<times> event list \<times> (exn + 'r)" where
  "actual_method schedule_no_method my_idx_new my_idx_orig method tp =
     (let i = new_schedule_index tp;
          j = orig_schedule_index tp
      in case (if j > my_idx_orig
               then (case run_range schedule_no_method [i..<length schedule_no_method] (design tp) of
                       (u, tr, Some e) \<Rightarrow> Inl (tp\<lparr>design := u\<rparr>, tr, e)
                     | (u, tr, None) \<Rightarrow>
                         Inr (tp\<lparr>design := u,
                                  num_cycles_executed := num_cycles_executed tp + 1\<rparr>, tr, 0))
               else Inr (tp, [], i)) of
           Inl (tp1, tr1, e) \<Rightarrow> (tp1, tr1, Inl e)
         | Inr (tp1, tr1, i1) \<Rightarrow>
            (case run_range schedule_no_method [i1..<my_idx_new] (design tp1) of
               (u, tr2, Some e) \<Rightarrow> (tp1\<lparr>design := u\<rparr>, tr1 @ tr2, Inl e)
             | (u, tr2, None) \<Rightarrow>
                (let i2 = max i1 my_idx_new;
                     j2 = my_idx_orig + 1
                 in case method u of
                      (u', Inl e) \<Rightarrow>
                        (tp1\<lparr>design := u'\<rparr>, tr1 @ tr2 @ [MethodCall my_idx_orig], Inl e)
                    | (u', Inr ret) \<Rightarrow>
                        (tp1\<lparr>design := u', new_schedule_index := i2,
                               orig_schedule_index := j2\<rparr>,
                         tr1 @ tr2 @ [MethodCall my_idx_orig], Inr ret))))"

text \<open>
  \<open>wrap_method(top, method, my_idx_new, next_idx_new, schedule_no_method, my_idx_orig,
  next_idx_orig)\<close> of \<open>passes/OpenLoopCLPass.py\<close> returns another \<open>actual_method\<close>: after
  the method it runs the blocks up to \<open>next_idx_new\<close>, sets \<open>j\<close> to \<open>next_idx_orig\<close>, and
  when \<open>i\<close> has reached the end of the projection it resets both indices and counts a
  cycle.
\<close>

definition actual_method_next ::
  "'u block list \<Rightarrow> nat \<Rightarrow> nat \<Rightarrow> nat \<Rightarrow> nat \<Rightarrow> ('u \<Rightarrow> 'u \<times> (exn + 'r)) \<Rightarrow> 'u root
     \<Rightarrow> 'u root \<times> event list \<times> (exn + 'r)" where
  "actual_method_next schedule_no_method my_idx_new next_idx_new my_idx_orig next_idx_orig
       method tp =
     (let i = new_schedule_index tp;
          j = orig_schedule_index tp
      in case (if j > my_idx_orig
               then (case run_range schedule_no_method [i..<length schedule_no_method] (design tp) of
                       (u, tr, Some e) \<Rightarrow> Inl (tp\<lparr>design := u\<rparr>, tr, e)
                     | (u, tr, None) \<Rightarrow>
                         Inr (tp\<lparr>design := u,
                                  num_cycles_executed := num_cycles_executed tp + 1\<rparr>, tr, 0))
               else Inr (tp, [], i)) of
           Inl (tp1, tr1, e) \<Rightarrow> (tp1, tr1, Inl e)
         | Inr (tp1, tr1, i1) \<Rightarrow>
            (case run_range schedule_no_method [i1..<my_idx_new] (design tp1) of
               (u, tr2, Some e) \<Rightarrow> (tp1\<lparr>design := u\<rparr>, tr1 @ tr2, Inl e)
             | (u, tr2, None) \<Rightarrow>
                (let i2 = max i1 my_idx_new
                 in case method u of
                      (u', Inl e) \<Rightarrow>
                        (tp1\<lparr>design := u'\<rparr>, tr1 @ tr2 @ [MethodCall my_idx_orig], Inl e)
                    | (u', Inr ret) \<Rightarrow>
                       (case run_range schedule_no_method [i2..<next_idx_new] u' of
                          (u'', tr3, Some e) \<Rightarrow>
                            (tp1\<lparr>design := u''\<rparr>,
                             tr1 @ tr2 @ [MethodCall my_idx_orig] @ tr3, Inl e)
                        | (u'', tr3, None) \<Rightarrow>
                           (let i3 = max i2 next_idx_new
                            in if i3 = length schedule_no_method
                               then (tp1\<lparr>design := u'', new_schedule_index := 0,
                                          orig_schedule_index := 0,
                                          num_cycles_executed := num_cycles_executed tp1 + 1\<rparr>,
                                     tr1 @ tr2 @ [MethodCall my_idx_orig] @ tr3, Inr ret)
                               else (tp1\<lparr>design := u'', new_schedule_index := i3,
                                          orig_schedule_index := next_idx_orig\<rparr>,
                                     tr1 @ tr2 @ [MethodCall my_idx_orig] @ tr3, Inr ret))))))"

subsection \<open>The installed tick\<close>

text \<open>
  \<open>normal_tick\<close> of \<open>passes/OpenLoopCLPass.py\<close>: \<open>for blk in schedule_no_method: blk()\<close>.
  The autotick pass installs \<open>SimpleTickPass.gen_tick_function(schedule_no_method)\<close>,
  a function of another module, for the same purpose.
\<close>

definition normal_tick :: "'u block list \<Rightarrow> 'u root \<Rightarrow> 'u root \<times> event list \<times> exn option" where
  "normal_tick schedule_no_method tp =
     (case run_range schedule_no_method [0..<length schedule_no_method] (design tp) of
        (u, tr, r) \<Rightarrow> (tp\<lparr>design := u\<rparr>, tr, r))"

text \<open>\<open>k\<close> calls of \<open>top.tick()\<close> in a row; an exception of a tick reaches the caller.\<close>

fun ticks :: "nat \<Rightarrow> 'u block list \<Rightarrow> 'u root \<Rightarrow> 'u root \<times> event list \<times> exn option" where
  "ticks 0 schedule_no_method tp = (tp, [], None)"
| "ticks (Suc k) schedule_no_method tp =
     (case normal_tick schedule_no_method tp of
        (top', tr, Some e) \<Rightarrow> (top', tr, Some e)
      | (top', tr, None) \<Rightarrow>
          (case ticks k schedule_no_method top' of
             (top'', tr', r) \<Rightarrow> (top'', tr @ tr', r)))"

subsection \<open>Installing the wrappers\<close>

text \<open>
  The assembled schedule holds callables: vertices of the graph (update blocks and
  callee ports), super-blocks, and the blocks of the other passes.
\<close>

datatype item =
    Callable pyobj
  | SuperBlock nat
  | ClearClTrace
  | PrintLineTrace
  | VcdFunc
  | CollectTextSigs

fun is_callee :: "item \<Rightarrow> bool" where
  "is_callee (Callable x) = isinstance_CalleePort x"
| "is_callee x = False"

text \<open>\<open>[x for x in schedule if not isinstance(x, CalleePort)]\<close>\<close>

definition methodless :: "item list \<Rightarrow> item list" where
  "methodless schedule = filter (\<lambda>x. \<not> is_callee x) schedule"

text \<open>
  \<open>mapping = { x : i for i, x in enumerate(schedule_no_method) }\<close>: a later index
  replaces an earlier one.
\<close>

fun mapping_from :: "nat \<Rightarrow> item list \<Rightarrow> (item \<rightharpoonup> nat) \<Rightarrow> (item \<rightharpoonup> nat)" where
  "mapping_from i [] m = m"
| "mapping_from i (x # xs) m = mapping_from (i + 1) xs (m(x \<mapsto> i))"

definition mapping :: "item list \<Rightarrow> (item \<rightharpoonup> nat)" where
  "mapping schedule_no_method = mapping_from 0 schedule_no_method Map.empty"

text \<open>
  \<open>while next_func < len(schedule): if not isinstance(schedule[next_func], CalleePort): break;
  next_func += 1\<close>
\<close>

function find_next_func :: "item list \<Rightarrow> nat \<Rightarrow> nat" where
  "find_next_func schedule next_func =
     (if next_func < length schedule
      then (if \<not> is_callee (schedule ! next_func) then next_func
            else find_next_func schedule (next_func + 1))
      else next_func)"
  by pat_completeness auto
termination
  by (relation "measure (\<lambda>(schedule, k). length schedule - k)") auto

declare find_next_func.simps [simp del]

text \<open>
  \<open>map_next_func = mapping[schedule[next_func]]\<close> for the callee port at index \<open>i\<close>:
  the value of \<open>my_idx_new\<close> its wrapper gets.
\<close>

definition map_next_func :: "item list \<Rightarrow> nat \<Rightarrow> exn + nat" where
  "map_next_func schedule i =
     (let next_func = find_next_func schedule (i + 1)
      in if next_func < length schedule
         then (case mapping (methodless schedule) (schedule ! next_func) of
                 None \<Rightarrow> Inl KeyError
               | Some k \<Rightarrow> Inr k)
         else Inl IndexError)"

text \<open>
  \<open>passes/OpenLoopCLPass.py\<close> also looks for the next callee port:
  \<open>while next_method < len(schedule): if isinstance(schedule[next_method], CalleePort):
  break; next_method += 1\<close>
\<close>

function find_next_method :: "item list \<Rightarrow> nat \<Rightarrow> nat" where
  "find_next_method schedule next_method =
     (if next_method < length schedule
      then (if is_callee (schedule ! next_method) then next_method
            else find_next_method schedule (next_method + 1))
      else next_method)"
  by pat_completeness auto
termination
  by (relation "measure (\<lambda>(schedule, k). length schedule - k)") auto

declare find_next_method.simps [simp del]

text \<open>
  \<open>map_next_func_of_next_method\<close> for the callee port at index \<open>i\<close>, the value of
  \<open>next_idx_new\<close> its wrapper gets; \<open>next_idx_orig\<close> is \<open>next_method\<close>, the result of the
  search from \<open>i + 1\<close>.
\<close>

definition map_next_func_of_next_method :: "item list \<Rightarrow> nat \<Rightarrow> exn + nat" where
  "map_next_func_of_next_method schedule i =
     (let next_method = find_next_method schedule (i + 1)
      in if next_method < length schedule
         then (let next_func = find_next_func schedule next_method
               in if next_func < length schedule
                  then (case mapping (methodless schedule) (schedule ! next_func) of
                          None \<Rightarrow> Inl KeyError
                        | Some k \<Rightarrow> Inr k)
                  else Inl IndexError)
         else Inr (length (methodless schedule)))"

text \<open>The cursor of the specification: both indices and the cycle counter.\<close>

definition cursor :: "'u root \<Rightarrow> nat \<times> nat \<times> nat" where
  "cursor tp = (new_schedule_index tp, orig_schedule_index tp, num_cycles_executed tp)"

text \<open>
  The indices of a cursor agree when the projected index is the number of projected
  blocks before the original index.  The elaborated root is in such a state.
\<close>

definition cursor_consistent :: "item list \<Rightarrow> 'u root \<Rightarrow> bool" where
  "cursor_consistent schedule tp =
     (new_schedule_index tp = length (methodless (take (orig_schedule_index tp) schedule)))"

section \<open>The scheduling pass\<close>

subsection \<open>Sets and dictionaries\<close>

text \<open>
  A Python set is modelled by the list of its elements, without repetition; \<open>x in s\<close>
  is membership.  Where the pass iterates over a set it has built, the order of the
  iteration is not under its control: the model takes it from the input
  (\<open>iter_edges\<close>, \<open>iter_ints\<close> below).
\<close>

definition set_add :: "'a list \<Rightarrow> 'a \<Rightarrow> 'a list" where
  "set_add s x = (if x \<in> set s then s else s @ [x])"

text \<open>
  The adjacency dictionaries \<open>G\<close> and \<open>G_T\<close> are association lists in key order;
  \<open>G[u].append(v)\<close> changes the entry of \<open>u\<close>.
\<close>

type_synonym adjacency = "(pyobj \<times> pyobj list) list"

definition adj_append :: "adjacency \<Rightarrow> pyobj \<Rightarrow> pyobj \<Rightarrow> adjacency" where
  "adj_append G u v = map (\<lambda>(k, vs). if k = u then (k, vs @ [v]) else (k, vs)) G"

subsection \<open>What the pass reads\<close>

text \<open>
  The inputs of \<open>schedule_with_top_level_callee\<close>: the sets of the DAG pass, the
  objects found on the root, and the outcome of what the pass leaves to others
  (\<open>random.shuffle\<close>, the iteration order of sets, the schedules of
  \<open>SimpleSchedulePass\<close>, the attributes of \<open>top._tracing\<close>).
  \<open>method_of x\<close> is the attribute \<open>x.method\<close> of a callee port, \<open>name_of x\<close> is
  \<open>x.__name__\<close>; an interface of \<open>top_level_nb_ifcs\<close> is given by its ports
  \<open>(x.method, x.rdy)\<close>.  \<open>iter_edges\<close>, \<open>iter_ints\<close> and \<open>iter_objs\<close> give the order in
  which Python iterates a set of edges, of SCC indices and of vertices, from the order
  in which its elements were inserted; \<open>eq_signal v x t\<close> is the outcome of \<open>x == t\<close>
  for a value of signal \<open>v\<close> and a copy.
\<close>

record ('s, 'v) pass_input =
  final_upblks :: "pyobj list"
  all_update_ff :: "pyobj list"
  top_level_callee_ports :: "pyobj list"
  in_non_blocking_interface :: "pyobj \<Rightarrow> bool"
  method_of :: "pyobj \<Rightarrow> pyobj"
  top_level_nb_ifcs :: "(pyobj \<times> pyobj) list"
  all_constraints :: "(pyobj \<times> pyobj) list"
  top_level_callee_constraints :: "(pyobj \<times> pyobj) list"
  constraint_objs :: "pyobj \<times> pyobj \<rightharpoonup> signal list"
  shuffle :: "pyobj list \<Rightarrow> pyobj list"
  iter_edges :: "(pyobj \<times> pyobj) list \<Rightarrow> (pyobj \<times> pyobj) list"
  iter_ints :: "nat list \<Rightarrow> nat list"
  iter_objs :: "pyobj list \<Rightarrow> pyobj list"
  name_of :: "pyobj \<Rightarrow> string"
  exec_of :: "pyobj \<Rightarrow> 's block"
  read_signal :: "signal \<Rightarrow> 's \<Rightarrow> 'v"
  eq_signal :: "signal \<Rightarrow> 'v \<Rightarrow> 'v \<Rightarrow> bool"
  line_trace_on :: bool
  schedule_ff :: "pyobj list"
  has_vcd_func :: bool
  has_collect_text_sigs :: bool
  schedule_posedge_flip :: "pyobj list"

subsection \<open>Building the graph\<close>

record graph =
  V :: "pyobj list"
  E :: "(pyobj \<times> pyobj) list"
  G :: adjacency
  G_T :: adjacency
  method_callee_mapping :: "pyobj \<rightharpoonup> pyobj"
  method_guard_mapping :: "pyobj \<rightharpoonup> pyobj"
  guard_method_mapping :: "pyobj \<rightharpoonup> pyobj"

text \<open>\<open>get_raw_method\<close>: \<open>assert isinstance(x, CalleePort); return x.method\<close>\<close>

definition get_raw_method :: "(pyobj \<Rightarrow> pyobj) \<Rightarrow> pyobj \<Rightarrow> exn + pyobj" where
  "get_raw_method meth x = (if isinstance_CalleePort x then Inr (meth x) else Inl AssertionError)"

text \<open>The loop over the normal callee ports (lines 67 to 72).\<close>

fun add_callee_ports ::
  "(pyobj \<Rightarrow> bool) \<Rightarrow> (pyobj \<Rightarrow> pyobj) \<Rightarrow> pyobj list \<Rightarrow> graph \<Rightarrow> exn + graph" where
  "add_callee_ports nb meth [] g = Inr g"
| "add_callee_ports nb meth (x # xs) g =
     (if \<not> nb x
      then (case get_raw_method meth x of
              Inl e \<Rightarrow> Inl e
            | Inr m \<Rightarrow>
                if method_callee_mapping g m \<noteq> None then Inl AssertionError
                else add_callee_ports nb meth xs
                       (g\<lparr>V := set_add (V g) x,
                          method_callee_mapping := (method_callee_mapping g)(m \<mapsto> x)\<rparr>))
      else add_callee_ports nb meth xs g)"

text \<open>The loop over the non-blocking callee interfaces (lines 76 to 88).\<close>

fun add_nb_ifcs :: "(pyobj \<Rightarrow> pyobj) \<Rightarrow> (pyobj \<times> pyobj) list \<Rightarrow> graph \<Rightarrow> exn + graph" where
  "add_nb_ifcs meth [] g = Inr g"
| "add_nb_ifcs meth ((x_method, x_rdy) # xs) g =
     (case get_raw_method meth x_method of
        Inl e \<Rightarrow> Inl e
      | Inr m \<Rightarrow>
         (case get_raw_method meth x_rdy of
            Inl e \<Rightarrow> Inl e
          | Inr r \<Rightarrow>
              if method_callee_mapping g m \<noteq> None then Inl AssertionError
              else add_nb_ifcs meth xs
                     (g\<lparr>V := set_add (set_add (V g) x_method) x_rdy,
                        E := set_add (E g) (x_rdy, x_method),
                        method_guard_mapping := (method_guard_mapping g)(x_method \<mapsto> x_rdy),
                        guard_method_mapping := (guard_method_mapping g)(x_rdy \<mapsto> x_method),
                        method_callee_mapping :=
                          (method_callee_mapping g)(m \<mapsto> x_method, r \<mapsto> x_rdy)\<rparr>)))"

text \<open>\<open>E.add((u, v)); G[u].append(v); G_T[v].append(u)\<close>\<close>

definition add_edge :: "graph \<Rightarrow> pyobj \<Rightarrow> pyobj \<Rightarrow> graph" where
  "add_edge g u v = g\<lparr>E := set_add (E g) (u, v), G := adj_append (G g) u v,
                        G_T := adj_append (G_T g) v u\<rparr>"

text \<open>The loop over \<open>top._dag.all_constraints\<close> (lines 93 to 97).\<close>

fun add_constraints :: "(pyobj \<times> pyobj) list \<Rightarrow> graph \<Rightarrow> graph" where
  "add_constraints [] g = g"
| "add_constraints ((u, v) # cs) g =
     add_constraints cs (if u \<in> set (V g) \<and> v \<in> set (V g) then add_edge g u v else g)"

text \<open>The loop over \<open>top._dag.top_level_callee_constraints\<close> (lines 106 to 121).\<close>

definition substitute :: "(pyobj \<rightharpoonup> pyobj) \<Rightarrow> pyobj \<Rightarrow> pyobj" where
  "substitute m x = (case m x of Some y \<Rightarrow> y | None \<Rightarrow> x)"

fun add_callee_constraints :: "(pyobj \<times> pyobj) list \<Rightarrow> graph \<Rightarrow> graph" where
  "add_callee_constraints [] g = g"
| "add_callee_constraints ((xx, yy) # cs) g =
     (let xx' = substitute (method_callee_mapping g) xx;
          yy' = substitute (method_guard_mapping g) (substitute (method_callee_mapping g) yy)
      in add_callee_constraints cs
           (if xx' \<in> set (V g) \<and> yy' \<in> set (V g) then add_edge g xx' yy' else g))"

definition build_graph :: "('s, 'v) pass_input \<Rightarrow> exn + graph" where
  "build_graph inp =
     (let g0 = \<lparr>V = remdups (filter (\<lambda>v. v \<notin> set (all_update_ff inp)) (final_upblks inp)),
                E = [], G = [], G_T = [],
                method_callee_mapping = Map.empty, method_guard_mapping = Map.empty,
                guard_method_mapping = Map.empty\<rparr>
      in case add_callee_ports (in_non_blocking_interface inp) (method_of inp)
                (top_level_callee_ports inp) g0 of
           Inl e \<Rightarrow> Inl e
         | Inr g1 \<Rightarrow>
            (case add_nb_ifcs (method_of inp) (top_level_nb_ifcs inp) g1 of
               Inl e \<Rightarrow> Inl e
             | Inr g2 \<Rightarrow>
                 Inr (add_callee_constraints (top_level_callee_constraints inp)
                        (add_constraints (all_constraints inp)
                           (g2\<lparr>G := map (\<lambda>v. (v, [])) (V g2),
                               G_T := map (\<lambda>v. (v, [])) (V g2)\<rparr>)))))"

subsection \<open>Kosaraju: post-order on G\<close>

text \<open>
  The stack is a list whose head is the top: \<open>stack.pop()\<close> takes the head, and
  pushing \<open>(u, True)\<close> and then \<open>reversed(G[u])\<close> leaves \<open>G[u]\<close> in order above
  \<open>(u, True)\<close>.  \<open>G[u]\<close> of a missing key raises \<open>KeyError\<close>.
\<close>

definition unvisited :: "adjacency \<Rightarrow> pyobj list \<Rightarrow> nat" where
  "unvisited g visited = length (filter (\<lambda>k. k \<notin> set visited) (map fst g))"

lemma length_filter_mono:
  "(\<And>y. Q y \<Longrightarrow> P y) \<Longrightarrow> length (filter Q xs) \<le> length (filter P xs)"
  by (induction xs) auto

lemma length_filter_strict:
  "x \<in> set xs \<Longrightarrow> P x \<Longrightarrow> \<not> Q x \<Longrightarrow> (\<And>y. Q y \<Longrightarrow> P y)
     \<Longrightarrow> length (filter Q xs) < length (filter P xs)"
proof (induction xs)
  case Nil
  then show ?case by simp
next
  case (Cons a xs)
  have le: "length (filter Q xs) \<le> length (filter P xs)"
    using Cons.prems(4) by (rule length_filter_mono)
  show ?case
  proof (cases "a = x")
    case True
    with Cons.prems le show ?thesis by simp
  next
    case False
    with Cons.prems have "x \<in> set xs" by simp
    from Cons.IH [OF this Cons.prems(2) Cons.prems(3) Cons.prems(4)]
    have "length (filter Q xs) < length (filter P xs)" .
    then show ?thesis using Cons.prems(4) [of a] by auto
  qed
qed

lemma unvisited_less:
  assumes "map_of g u = Some vs" and "u \<notin> set visited"
  shows "unvisited g (u # visited) < unvisited g visited"
proof -
  from assms(1) have "(u, vs) \<in> set g" by (rule map_of_SomeD)
  then have "u \<in> set (map fst g)" by force
  then show ?thesis
    unfolding unvisited_def
    by (rule length_filter_strict) (use assms(2) in auto)
qed

function dfs_stack ::
  "adjacency \<Rightarrow> (pyobj \<times> bool) list \<Rightarrow> pyobj list \<Rightarrow> pyobj list \<Rightarrow> exn + (pyobj list \<times> pyobj list)" where
  "dfs_stack g [] visited PO = Inr (visited, PO)"
| "dfs_stack g ((u, second_visit) # stack) visited PO =
     (if second_visit then dfs_stack g stack visited (PO @ [u])
      else if u \<notin> set visited
      then (case map_of g u of
              None \<Rightarrow> Inl KeyError
            | Some vs \<Rightarrow>
                dfs_stack g (map (\<lambda>v. (v, False)) vs @ (u, True) # stack) (u # visited) PO)
      else dfs_stack g stack visited PO)"
  by pat_completeness auto
termination
  by (relation "measures [\<lambda>(g, stack, visited, PO). unvisited g visited,
                          \<lambda>(g, stack, visited, PO). length stack]")
     (auto simp: unvisited_less)

declare dfs_stack.simps [simp del]

text \<open>\<open>for u in vertices: stack = [(u, False)]; while stack: ...\<close>\<close>

fun dfs_all ::
  "adjacency \<Rightarrow> pyobj list \<Rightarrow> pyobj list \<Rightarrow> pyobj list \<Rightarrow> exn + (pyobj list \<times> pyobj list)" where
  "dfs_all g [] visited PO = Inr (visited, PO)"
| "dfs_all g (u # us) visited PO =
     (case dfs_stack g [(u, False)] visited PO of
        Inl e \<Rightarrow> Inl e
      | Inr (visited', PO') \<Rightarrow> dfs_all g us visited' PO')"

subsection \<open>Kosaraju: the components, by BFS on \<open>G_T\<close>\<close>

record sccs =
  SCCs :: "pyobj list list"
  v_SCC :: "pyobj \<rightharpoonup> nat"

text \<open>
  \<open>for v in G_T[u]: if v not in visited: visited.add(v); Q.append(v); scc.add(v)\<close>
\<close>

fun bfs_visit ::
  "pyobj list \<Rightarrow> pyobj list \<times> pyobj list \<times> pyobj list \<Rightarrow> pyobj list \<times> pyobj list \<times> pyobj list" where
  "bfs_visit [] (visited, Q, scc) = (visited, Q, scc)"
| "bfs_visit (v # vs) (visited, Q, scc) =
     bfs_visit vs (if v \<notin> set visited then (v # visited, Q @ [v], set_add scc v)
                   else (visited, Q, scc))"


definition queued_keys :: "adjacency \<Rightarrow> pyobj list \<Rightarrow> nat" where
  "queued_keys g q = length (filter (\<lambda>x. x \<in> set (map fst g)) q)"

lemma unvisited_Cons_le: "unvisited g (v # visited) \<le> unvisited g visited"
  unfolding unvisited_def by (rule length_filter_mono) auto

lemma unvisited_Cons_key:
  "v \<in> set (map fst g) \<Longrightarrow> v \<notin> set visited \<Longrightarrow> unvisited g (v # visited) < unvisited g visited"
  unfolding unvisited_def by (rule length_filter_strict [of v]) auto

lemma bfs_visit_measure:
  "bfs_visit ps (visited, q, scc) = (visited', q', scc') \<Longrightarrow>
     unvisited g visited' < unvisited g visited
     \<or> (unvisited g visited' \<le> unvisited g visited \<and> queued_keys g q' = queued_keys g q)"
proof (induction ps arbitrary: visited q scc)
  case Nil
  then show ?case by simp
next
  case (Cons v ps)
  show ?case
  proof (cases "v \<in> set visited")
    case True
    with Cons show ?thesis by simp
  next
    case False
    with Cons.prems have r: "bfs_visit ps (v # visited, q @ [v], set_add scc v) = (visited', q', scc')"
      by simp
    from Cons.IH [OF r]
    have ih: "unvisited g visited' < unvisited g (v # visited)
       \<or> (unvisited g visited' \<le> unvisited g (v # visited) \<and> queued_keys g q' = queued_keys g (q @ [v]))" .
    show ?thesis
    proof (cases "v \<in> set (map fst g)")
      case True
      from unvisited_Cons_key [OF True False] ih show ?thesis by auto
    next
      case nk: False
      then have "queued_keys g (q @ [v]) = queued_keys g q" by (simp add: queued_keys_def)
      with ih unvisited_Cons_le [of g v visited] show ?thesis by auto
    qed
  qed
qed

text \<open>
  \<open>while Q: u = Q.popleft(); v_SCC[u] = len(SCCs) - 1; for v in G_T[u]: ...\<close>, for the
  component of index \<open>k\<close>.
\<close>

function bfs_queue ::
  "adjacency \<Rightarrow> nat \<Rightarrow> pyobj list \<Rightarrow> pyobj list \<Rightarrow> pyobj list \<Rightarrow> (pyobj \<rightharpoonup> nat)
     \<Rightarrow> exn + (pyobj list \<times> pyobj list \<times> (pyobj \<rightharpoonup> nat))" where
  "bfs_queue g k [] visited scc vscc = Inr (visited, scc, vscc)"
| "bfs_queue g k (u # q) visited scc vscc =
     (case map_of g u of
        None \<Rightarrow> Inl KeyError
      | Some ps \<Rightarrow>
          (case bfs_visit ps (visited, q, scc) of
             (visited', q', scc') \<Rightarrow> bfs_queue g k q' visited' scc' (vscc(u \<mapsto> k))))"
  by pat_completeness auto
termination
proof (relation "measures [\<lambda>(g, k, q, visited, scc, vscc). unvisited g visited,
                            \<lambda>(g, k, q, visited, scc, vscc). queued_keys g q]")
  show "wf (measures [\<lambda>(g, k, q, visited, scc, vscc). unvisited g visited,
                      \<lambda>(g, k, q, visited, scc, vscc). queued_keys g q])" by simp
next
  fix g :: adjacency and k :: nat and u :: pyobj and q visited scc :: "pyobj list"
    and vscc :: "pyobj \<rightharpoonup> nat" and ps x2 visited' y q' scc'
  assume m: "map_of g u = Some ps"
    and "(visited', y) = bfs_visit ps (visited, q, scc)" and "(q', scc') = y"
  then have r: "bfs_visit ps (visited, q, scc) = (visited', q', scc')" by simp
  from m have "(u, ps) \<in> set g" by (rule map_of_SomeD)
  then have "u \<in> set (map fst g)" by force
  then have "queued_keys g (u # q) = Suc (queued_keys g q)" by (simp add: queued_keys_def)
  with bfs_visit_measure [OF r, of g]
  show "((g, k, q', visited', scc', vscc(u \<mapsto> k)), (g, k, u # q, visited, scc, vscc))
          \<in> measures [\<lambda>(g, k, q, visited, scc, vscc). unvisited g visited,
                       \<lambda>(g, k, q, visited, scc, vscc). queued_keys g q]"
    by auto
qed

declare bfs_queue.simps [simp del]

text \<open>\<open>for u in RPO: if u not in visited: ...\<close>\<close>

fun bfs_all :: "adjacency \<Rightarrow> pyobj list \<Rightarrow> pyobj list \<Rightarrow> sccs \<Rightarrow> exn + sccs" where
  "bfs_all g [] visited r = Inr r"
| "bfs_all g (u # us) visited r =
     (if u \<notin> set visited
      then (case bfs_queue g (length (SCCs r)) [u] (u # visited) [u] (v_SCC r) of
              Inl e \<Rightarrow> Inl e
            | Inr (visited', scc, vscc) \<Rightarrow>
                bfs_all g us visited' \<lparr>SCCs = SCCs r @ [scc], v_SCC = vscc\<rparr>)
      else bfs_all g us visited r)"

definition kosaraju :: "(pyobj list \<Rightarrow> pyobj list) \<Rightarrow> graph \<Rightarrow> exn + sccs" where
  "kosaraju shuffled g =
     (let vertices = shuffled (map fst (G g))
      in case dfs_all (G g) vertices [] [] of
           Inl e \<Rightarrow> Inl e
         | Inr (visited, PO) \<Rightarrow>
             bfs_all (G_T g) (rev PO) [] \<lparr>SCCs = [], v_SCC = Map.empty\<rparr>)"

subsection \<open>The graph of the components\<close>

record condensed =
  G_new :: "nat \<rightharpoonup> nat list"
  InD :: "nat \<rightharpoonup> int"

text \<open>
  \<open>for (u, v) in E: scc_u, scc_v = v_SCC[u], v_SCC[v];
  if scc_u != scc_v and scc_v not in G_new[scc_u]: InD[scc_v] += 1; G_new[scc_u].add(scc_v)\<close>
\<close>

fun condense :: "(pyobj \<rightharpoonup> nat) \<Rightarrow> (pyobj \<times> pyobj) list \<Rightarrow> condensed \<Rightarrow> exn + condensed" where
  "condense vscc [] c = Inr c"
| "condense vscc ((u, v) # es) c =
     (case vscc u of
        None \<Rightarrow> Inl KeyError
      | Some scc_u \<Rightarrow>
         (case vscc v of
            None \<Rightarrow> Inl KeyError
          | Some scc_v \<Rightarrow>
              if scc_u \<noteq> scc_v
              then (case G_new c scc_u of
                      None \<Rightarrow> Inl KeyError
                    | Some succs \<Rightarrow>
                        if scc_v \<notin> set succs
                        then (case InD c scc_v of
                                None \<Rightarrow> Inl KeyError
                              | Some d \<Rightarrow>
                                  condense vscc es
                                    (c\<lparr>InD := (InD c)(scc_v \<mapsto> d + 1),
                                       G_new := (G_new c)(scc_u \<mapsto> set_add succs scc_v)\<rparr>))
                        else condense vscc es c)
              else condense vscc es c))"

definition condensed_init :: "nat \<Rightarrow> condensed" where
  "condensed_init n = \<lparr>G_new = (\<lambda>i. if i < n then Some [] else None),
                       InD = (\<lambda>i. if i < n then Some 0 else None)\<rparr>"

subsection \<open>The topological sort of the components\<close>

text \<open>
  The state of the \<open>while Q\<close> loop: \<open>kQ\<close> is \<open>Q\<close>, \<open>kInD\<close> is \<open>InD\<close> and \<open>ku\<close> is the
  local variable \<open>u\<close>: \<open>Some k\<close> when it
  holds the integer \<open>k\<close>, \<open>None\<close> while it still holds the vertex object an earlier loop
  of the function left in it.
\<close>

record kahn =
  kQ :: "nat list"
  kInD :: "nat \<rightharpoonup> int"
  scc_pred :: "nat \<rightharpoonup> nat option"
  scc_schedule :: "nat list"
  ku :: "nat option"

text \<open>
  The test of the tie-break, \<open>m not in method_guard_mapping or m not in
  guard_method_mapping\<close>, where \<open>m = Q[i]\<close> is an integer and the keys of both
  dictionaries are callee ports.
\<close>

definition preferred :: "(pyobj \<rightharpoonup> pyobj) \<Rightarrow> (pyobj \<rightharpoonup> pyobj) \<Rightarrow> nat \<Rightarrow> bool" where
  "preferred mgm gmm m = (mgm (PyInt m) = None \<or> gmm (PyInt m) = None)"

text \<open>
  \<open>for i in range(len(Q)): m = Q[i]; if ...: u = Q.pop(i); found = True; break\<close>:
  the first element that passes the test, and \<open>Q\<close> without it.
\<close>

fun pop_first :: "(nat \<Rightarrow> bool) \<Rightarrow> nat list \<Rightarrow> (nat \<times> nat list) option" where
  "pop_first t [] = None"
| "pop_first t (m # q) =
     (if t m then Some (m, q)
      else (case pop_first t q of
              None \<Rightarrow> None
            | Some (x, q') \<Rightarrow> Some (x, m # q')))"

text \<open>
  \<open>for v in G_new[u]: InD[v] -= 1; if not InD[v]: Q.append(v); scc_pred[v] = u\<close>
\<close>

fun drain :: "nat \<Rightarrow> nat list \<Rightarrow> kahn \<Rightarrow> exn + kahn" where
  "drain k [] st = Inr st"
| "drain k (v # vs) st =
     (case kInD st v of
        None \<Rightarrow> Inl KeyError
      | Some d \<Rightarrow>
          drain k vs
            (if d - 1 = 0
             then st\<lparr>kInD := (kInD st)(v \<mapsto> d - 1), kQ := kQ st @ [v],
                     scc_pred := (scc_pred st)(v \<mapsto> Some k)\<rparr>
             else st\<lparr>kInD := (kInD st)(v \<mapsto> d - 1)\<rparr>))"

text \<open>One iteration of the \<open>while Q\<close> loop of the autotick pass.\<close>

definition kahn_iter ::
  "(nat list \<Rightarrow> nat list) \<Rightarrow> (pyobj \<rightharpoonup> pyobj) \<Rightarrow> (pyobj \<rightharpoonup> pyobj) \<Rightarrow> (nat \<rightharpoonup> nat list)
     \<Rightarrow> kahn \<Rightarrow> exn + kahn" where
  "kahn_iter iter mgm gmm gnew st =
     (let st1 = (case pop_first (preferred mgm gmm) (kQ st) of
                   Some (m, q) \<Rightarrow> st\<lparr>kQ := q, ku := Some m, scc_schedule := scc_schedule st @ [m]\<rparr>
                 | None \<Rightarrow> st)
      in case ku st1 of
           None \<Rightarrow> Inl KeyError
         | Some k \<Rightarrow>
             (case gnew k of
                None \<Rightarrow> Inl KeyError
              | Some succs \<Rightarrow> drain k (iter succs) st1))"

text \<open>
  The loop itself.  Without a popped element an iteration leaves \<open>Q\<close> as it is, so the
  loop as written need not end: the model counts iterations, and \<open>None\<close> says that
  \<open>fuel\<close> iterations were not enough.
\<close>

fun kahn_loop ::
  "nat \<Rightarrow> (nat list \<Rightarrow> nat list) \<Rightarrow> (pyobj \<rightharpoonup> pyobj) \<Rightarrow> (pyobj \<rightharpoonup> pyobj) \<Rightarrow> (nat \<rightharpoonup> nat list)
     \<Rightarrow> kahn \<Rightarrow> (exn + kahn) option" where
  "kahn_loop 0 iter mgm gmm gnew st = (if kQ st = [] then Some (Inr st) else None)"
| "kahn_loop (Suc fuel) iter mgm gmm gnew st =
     (if kQ st = [] then Some (Inr st)
      else (case kahn_iter iter mgm gmm gnew st of
              Inl e \<Rightarrow> Some (Inl e)
            | Inr st' \<Rightarrow> kahn_loop fuel iter mgm gmm gnew st'))"

text \<open>
  Lines 176 to 219: the graph of the components, the initial frontier, the loop and
  the final assertion.
\<close>

definition kahn_init :: "nat \<Rightarrow> condensed \<Rightarrow> kahn" where
  "kahn_init n c =
     (let q = filter (\<lambda>i. InD c i = Some 0) [0..<n]
      in \<lparr>kQ = q, kInD = InD c,
          scc_pred = (\<lambda>x. if x \<in> set q then Some None else None),
          scc_schedule = [], ku = None\<rparr>)"

definition topological_sort ::
  "nat \<Rightarrow> (nat list \<Rightarrow> nat list) \<Rightarrow> (pyobj \<times> pyobj) list \<Rightarrow> (pyobj \<rightharpoonup> pyobj) \<Rightarrow> (pyobj \<rightharpoonup> pyobj)
     \<Rightarrow> nat \<Rightarrow> (pyobj \<rightharpoonup> nat) \<Rightarrow> (exn + kahn) option" where
  "topological_sort fuel iter edges mgm gmm n vscc =
     (case condense vscc edges (condensed_init n) of
        Inl e \<Rightarrow> Some (Inl e)
      | Inr c \<Rightarrow>
         (case kahn_loop fuel iter mgm gmm (G_new c) (kahn_init n c) of
            None \<Rightarrow> None
          | Some (Inl e) \<Rightarrow> Some (Inl e)
          | Some (Inr st) \<Rightarrow>
              if length (scc_schedule st) = n then Some (Inr st) else Some (Inl AssertionError)))"


subsection \<open>The order inside a non-trivial component\<close>

text \<open>
  \<open>InD = { v: 0 for v in scc }; for (u, v) in E: if u in scc and v in scc: InD[v] += 1\<close>
\<close>

fun internal_in_degrees ::
  "(pyobj \<times> pyobj) list \<Rightarrow> pyobj list \<Rightarrow> (pyobj \<times> int) list \<Rightarrow> (pyobj \<times> int) list" where
  "internal_in_degrees [] scc ind = ind"
| "internal_in_degrees ((a, b) # es) scc ind =
     internal_in_degrees es scc
       (if a \<in> set scc \<and> b \<in> set scc
        then map (\<lambda>(k, d). if k = b then (k, d + 1) else (k, d)) ind
        else ind)"

text \<open>\<open>max(InD, key=InD.get)\<close>: the first key of the largest value.\<close>

fun max_key :: "(pyobj \<times> int) list \<Rightarrow> pyobj \<times> int \<Rightarrow> pyobj \<times> int" where
  "max_key [] best = best"
| "max_key ((k, d) # kds) best = max_key kds (if snd best < d then (k, d) else best)"

text \<open>
  \<open>for x in sorted(scc, key=lambda x: x.__name__): for v in G_T[x]: if v in pred:
  Q.append(x)\<close>
\<close>

fun seeds_from_pred :: "adjacency \<Rightarrow> pyobj list \<Rightarrow> pyobj list \<Rightarrow> exn + pyobj list" where
  "seeds_from_pred gt pred [] = Inr []"
| "seeds_from_pred gt pred (x # xs) =
     (case map_of gt x of
        None \<Rightarrow> Inl KeyError
      | Some vs \<Rightarrow>
          (case seeds_from_pred gt pred xs of
             Inl e \<Rightarrow> Inl e
           | Inr q \<Rightarrow> Inr (map (\<lambda>v. x) (filter (\<lambda>v. v \<in> set pred) vs) @ q)))"

text \<open>\<open>for v in G[u]: if v in scc and v not in visited: Q.append(v); visited.add(v)\<close>\<close>

fun intra_visit ::
  "pyobj list \<Rightarrow> pyobj list \<Rightarrow> pyobj list \<times> pyobj list \<Rightarrow> pyobj list \<times> pyobj list" where
  "intra_visit scc [] (q, visited) = (q, visited)"
| "intra_visit scc (v # vs) (q, visited) =
     intra_visit scc vs (if v \<in> set scc \<and> v \<notin> set visited then (q @ [v], v # visited)
                         else (q, visited))"

definition outside :: "pyobj list \<Rightarrow> pyobj list \<Rightarrow> nat" where
  "outside scc visited = length (filter (\<lambda>k. k \<notin> set visited) scc)"

lemma intra_visit_measure:
  "intra_visit scc vs (q, visited) = (q', visited') \<Longrightarrow>
     outside scc visited' < outside scc visited \<or> (visited' = visited \<and> q' = q)"
proof (induction vs arbitrary: q visited)
  case Nil
  then show ?case by simp
next
  case (Cons v vs)
  show ?case
  proof (cases "v \<in> set scc \<and> v \<notin> set visited")
    case False
    with Cons show ?thesis by auto
  next
    case True
    with Cons.prems have r: "intra_visit scc vs (q @ [v], v # visited) = (q', visited')" by simp
    from True have "outside scc (v # visited) < outside scc visited"
      unfolding outside_def by (intro length_filter_strict [of v]) auto
    with Cons.IH [OF r] show ?thesis by auto
  qed
qed

text \<open>\<open>while Q: u = Q.popleft(); tmp_schedule.append(u); for v in G[u]: ...\<close>\<close>

function intra_bfs ::
  "adjacency \<Rightarrow> pyobj list \<Rightarrow> pyobj list \<Rightarrow> pyobj list \<Rightarrow> pyobj list \<Rightarrow> exn + pyobj list" where
  "intra_bfs g scc [] visited tmp_schedule = Inr tmp_schedule"
| "intra_bfs g scc (x # q) visited tmp_schedule =
     (case map_of g x of
        None \<Rightarrow> Inl KeyError
      | Some vs \<Rightarrow>
          (case intra_visit scc vs (q, visited) of
             (q', visited') \<Rightarrow> intra_bfs g scc q' visited' (tmp_schedule @ [x])))"
  by pat_completeness auto
termination
proof (relation "measures [\<lambda>(g, scc, q, visited, tmp). outside scc visited,
                            \<lambda>(g, scc, q, visited, tmp). length q]")
  show "wf (measures [\<lambda>(g, scc, q, visited, tmp). outside scc visited,
                      \<lambda>(g, scc, q, visited, tmp). length q])" by simp
next
  fix g :: adjacency and scc q visited tmp_schedule :: "pyobj list" and x :: pyobj
    and vs y q' visited'
  assume "(q', visited') = intra_visit scc vs (q, visited)"
  then have "intra_visit scc vs (q, visited) = (q', visited')" by simp
  from intra_visit_measure [OF this]
  show "((g, scc, q', visited', tmp_schedule @ [x]), (g, scc, x # q, visited, tmp_schedule))
          \<in> measures [\<lambda>(g, scc, q, visited, tmp). outside scc visited,
                       \<lambda>(g, scc, q, visited, tmp). length q]"
    by auto
qed

declare intra_bfs.simps [simp del]

text \<open>
  Lines 246 to 276: the intra-SCC order of the component \<open>scc\<close>, whose predecessor in
  the topological sort is \<open>pred\<close> (\<open>scc_pred[i]\<close>, an index or \<open>None\<close>).  The component
  is a Python set: \<open>{ v: 0 for v in scc }\<close> and \<open>sorted(scc, ...)\<close> take its elements in
  the order \<open>iter scc\<close> in which the set is iterated.
\<close>

definition intra_scc_order ::
  "(pyobj list \<Rightarrow> pyobj list) \<Rightarrow> (pyobj \<Rightarrow> string) \<Rightarrow> (pyobj \<times> pyobj) list \<Rightarrow> graph
     \<Rightarrow> pyobj list list \<Rightarrow> pyobj list \<Rightarrow> nat option \<Rightarrow> exn + pyobj list" where
  "intra_scc_order iter nm edges g comps scc pred =
     (case (case pred of
              None \<Rightarrow>
                (case internal_in_degrees edges scc (map (\<lambda>v. (v, 0)) (iter scc)) of
                   [] \<Rightarrow> Inl (Raised ''ValueError'')
                 | kd # kds \<Rightarrow> Inr [fst (max_key kds kd)])
            | Some p \<Rightarrow>
                if p < length comps
                then seeds_from_pred (G_T g) (comps ! p) (sort_key nm (iter scc))
                else Inl IndexError) of
        Inl e \<Rightarrow> Inl e
      | Inr q \<Rightarrow> intra_bfs (G g) scc q (remdups q) [])"

subsection \<open>The update sweep and the assembled schedule\<close>

text \<open>
  The loop \<open>for i in scc_schedule\<close> (lines 229 to 338); \<open>scc_id\<close> counts the
  super-blocks made so far.
\<close>

fun update_sweep ::
  "('s, 'v) pass_input \<Rightarrow> graph \<Rightarrow> pyobj list list \<Rightarrow> (nat \<rightharpoonup> nat option) \<Rightarrow> nat list \<Rightarrow> nat
     \<Rightarrow> exn + item list" where
  "update_sweep inp g comps preds [] scc_id = Inr []"
| "update_sweep inp g comps preds (i # is) scc_id =
     (if i < length comps
      then (case comps ! i of
              [x] \<Rightarrow>
                (case update_sweep inp g comps preds is scc_id of
                   Inl e \<Rightarrow> Inl e
                 | Inr rest \<Rightarrow> Inr (Callable x # rest))
            | scc \<Rightarrow>
                (case preds i of
                   None \<Rightarrow> Inl KeyError
                 | Some pred \<Rightarrow>
                    (case intra_scc_order (iter_objs inp) (name_of inp) (iter_edges inp (E g))
                            g comps scc pred of
                       Inl e \<Rightarrow> Inl e
                     | Inr tmp_schedule \<Rightarrow>
                        (case synthesize_SCC (eq_signal inp) (read_signal inp) (exec_of inp)
                                (name_of inp) (iter_objs inp) (iter_edges inp (E g))
                                (constraint_objs inp) (scc_id + 1) scc tmp_schedule of
                           Inl e \<Rightarrow> Inl e
                         | Inr blk \<Rightarrow>
                            (case update_sweep inp g comps preds is (scc_id + 1) of
                               Inl e \<Rightarrow> Inl e
                             | Inr rest \<Rightarrow> Inr (SuperBlock (scc_id + 1) # rest))))))
      else Inl IndexError)"

text \<open>Lines 355 to 382: the tick order.\<close>

definition assemble :: "('s, 'v) pass_input \<Rightarrow> item list \<Rightarrow> item list" where
  "assemble inp update_schedule =
     [ClearClTrace] @ update_schedule
       @ (if line_trace_on inp then [PrintLineTrace] else [])
       @ map Callable (schedule_ff inp)
       @ (if has_vcd_func inp then [VcdFunc] else [])
       @ (if has_collect_text_sigs inp then [CollectTextSigs] else [])
       @ map Callable (schedule_posedge_flip inp)"

text \<open>
  Lines 431 to 450: for every callee port of the schedule, its index and the
  \<open>my_idx_new\<close> of its wrapper.
\<close>

fun install_wrappers :: "item list \<Rightarrow> nat list \<Rightarrow> exn + (nat \<times> nat) list" where
  "install_wrappers schedule [] = Inr []"
| "install_wrappers schedule (i # is) =
     (if is_callee (schedule ! i)
      then (case map_next_func schedule i of
              Inl e \<Rightarrow> Inl e
            | Inr t \<Rightarrow>
                (case install_wrappers schedule is of
                   Inl e \<Rightarrow> Inl e
                 | Inr ws \<Rightarrow> Inr ((i, t) # ws)))
      else install_wrappers schedule is)"

subsection \<open>The pass\<close>

record pass_result =
  r_graph :: graph
  r_sccs :: sccs
  r_scc_schedule :: "nat list"
  r_update_schedule :: "item list"
  r_schedule :: "item list"
  r_schedule_no_method :: "item list"
  r_wrappers :: "(nat \<times> nat) list"

text \<open>
  \<open>schedule_with_top_level_callee\<close>.  \<open>fuel\<close> bounds the iterations of the
  topological sort.
\<close>

definition schedule_with_top_level_callee ::
  "nat \<Rightarrow> ('s, 'v) pass_input \<Rightarrow> (exn + pass_result) option" where
  "schedule_with_top_level_callee fuel inp =
     (case build_graph inp of
        Inl e \<Rightarrow> Some (Inl e)
      | Inr g \<Rightarrow>
         (case kosaraju (shuffle inp) g of
            Inl e \<Rightarrow> Some (Inl e)
          | Inr r \<Rightarrow>
             (case topological_sort fuel (iter_ints inp) (iter_edges inp (E g))
                     (method_guard_mapping g) (guard_method_mapping g)
                     (length (SCCs r)) (v_SCC r) of
                None \<Rightarrow> None
              | Some (Inl e) \<Rightarrow> Some (Inl e)
              | Some (Inr st) \<Rightarrow>
                 (case update_sweep inp g (SCCs r) (scc_pred st) (scc_schedule st) 0 of
                    Inl e \<Rightarrow> Some (Inl e)
                  | Inr upd \<Rightarrow>
                     (let sched = assemble inp upd
                      in case install_wrappers sched [0..<length sched] of
                           Inl e \<Rightarrow> Some (Inl e)
                         | Inr ws \<Rightarrow>
                             Some (Inr \<lparr>r_graph = g, r_sccs = r,
                                         r_scc_schedule = scc_schedule st,
                                         r_update_schedule = upd, r_schedule = sched,
                                         r_schedule_no_method = methodless sched,
                                         r_wrappers = ws\<rparr>))))))"

section \<open>Notions used to state the properties of the schedule\<close>

text \<open>The position of an element in a sequence: the index of its first occurrence.\<close>

fun position :: "'a list \<Rightarrow> 'a \<Rightarrow> nat option" where
  "position [] x = None"
| "position (y # ys) x = (if x = y then Some 0 else map_option Suc (position ys x))"

text \<open>\<open>a\<close> occupies a strictly earlier position than \<open>b\<close>; both occur.\<close>

definition precedes :: "'a list \<Rightarrow> 'a \<Rightarrow> 'a \<Rightarrow> bool" where
  "precedes xs a b =
     (case position xs a of
        None \<Rightarrow> False
      | Some i \<Rightarrow> (case position xs b of None \<Rightarrow> False | Some j \<Rightarrow> i < j))"

text \<open>The successors of a component in the condensed graph.\<close>

definition succs :: "(nat \<rightharpoonup> nat list) \<Rightarrow> nat \<Rightarrow> nat list" where
  "succs gnew a = (case gnew a of Some s \<Rightarrow> s | None \<Rightarrow> [])"

text \<open>The predecessors of \<open>b\<close> that the topological sort has not scheduled yet.\<close>

definition unscheduled_preds :: "nat \<Rightarrow> (nat \<rightharpoonup> nat list) \<Rightarrow> nat list \<Rightarrow> nat \<Rightarrow> nat set" where
  "unscheduled_preds n gnew sched b = {a. a < n \<and> b \<in> set (succs gnew a) \<and> a \<notin> set sched}"

text \<open>The dictionary \<open>G_new\<close> has the keys \<open>0, ..., n - 1\<close>, and its values are sets of keys.\<close>

definition gnew_ok :: "nat \<Rightarrow> (nat \<rightharpoonup> nat list) \<Rightarrow> bool" where
  "gnew_ok n gnew = (\<forall>a<n. \<exists>s. gnew a = Some s \<and> distinct s \<and> set s \<subseteq> {..<n})"

text \<open>
  The invariant of the \<open>while Q\<close> loop: \<open>InD\<close> counts the unscheduled predecessors, the
  frontier and the schedule together hold the components without one, once each, and
  the schedule so far is topological.
\<close>

definition kahn_inv :: "nat \<Rightarrow> (nat \<rightharpoonup> nat list) \<Rightarrow> kahn \<Rightarrow> bool" where
  "kahn_inv n gnew st =
     (set (kQ st) \<subseteq> {..<n} \<and> set (scc_schedule st) \<subseteq> {..<n}
      \<and> distinct (scc_schedule st @ kQ st)
      \<and> (\<forall>b<n. kInD st b = Some (int (card (unscheduled_preds n gnew (scc_schedule st) b))))
      \<and> (\<forall>b<n. (b \<in> set (kQ st) \<union> set (scc_schedule st))
                 = (unscheduled_preds n gnew (scc_schedule st) b = {}))
      \<and> (\<forall>a<n. \<forall>b\<in>set (succs gnew a).
            b \<in> set (scc_schedule st) \<longrightarrow> precedes (scc_schedule st) a b))"

text \<open>The keys of a dictionary are callee ports.\<close>

definition keys_are_ports :: "(pyobj \<rightharpoonup> pyobj) \<Rightarrow> bool" where
  "keys_are_ports m = (\<forall>x\<in>dom m. isinstance_CalleePort x)"

text \<open>Iterating over a set visits every element once.\<close>

definition set_iteration :: "('a list \<Rightarrow> 'a list) \<Rightarrow> bool" where
  "set_iteration f = (\<forall>xs. distinct xs \<longrightarrow> distinct (f xs) \<and> set (f xs) = set xs)"

text \<open>
  After the loop over \<open>E\<close>, \<open>G_new\<close> and \<open>InD\<close> have the keys \<open>0, ..., n - 1\<close> and
  \<open>InD\<close> counts the predecessors in \<open>G_new\<close>.
\<close>

definition cond_ok :: "nat \<Rightarrow> condensed \<Rightarrow> bool" where
  "cond_ok n c =
     (gnew_ok n (G_new c)
      \<and> (\<forall>b\<ge>n. InD c b = None \<and> G_new c b = None)
      \<and> (\<forall>b<n. InD c b = Some (int (card (unscheduled_preds n (G_new c) [] b)))))"

text \<open>
  The components partition what has been visited: \<open>v_SCC\<close> sends a vertex to the index
  of the one component that holds it.
\<close>

definition sccs_inv :: "pyobj list \<Rightarrow> sccs \<Rightarrow> bool" where
  "sccs_inv visited r =
     ((\<forall>v k. v_SCC r v = Some k \<longrightarrow> k < length (SCCs r) \<and> v \<in> set (SCCs r ! k))
      \<and> (\<forall>k<length (SCCs r). \<forall>v\<in>set (SCCs r ! k). v_SCC r v = Some k \<and> v \<in> set visited))"

section \<open>Scenarios\<close>

text \<open>S2\<close>

definition S2_exec :: "pyobj \<Rightarrow> (nat \<times> nat) block" where
  "S2_exec b = (\<lambda>(x, y). if b = Func 0 then ((x, x), None) else if b = Func 1 then ((1, y), None) else ((x, y), None))"

definition S2_rd :: "signal \<Rightarrow> nat \<times> nat \<Rightarrow> nat" where
  "S2_rd v = (\<lambda>(x, y). x)"

definition S2_name :: "pyobj \<Rightarrow> string" where
  "S2_name b = (if b = Func 0 then ''A'' else ''B'')"

definition S2_E :: "(pyobj \<times> pyobj) list" where
  "S2_E = [(Func 0, Func 1), (Func 1, Func 0)]"

definition S2_constraint_objs :: "pyobj \<times> pyobj \<rightharpoonup> signal list" where
  "S2_constraint_objs = [(Func 0, Func 1) \<mapsto> [Signal ''s.x'' BitsT], (Func 1, Func 0) \<mapsto> [Signal ''s.x'' BitsT]]"

definition S6_exec :: "pyobj \<Rightarrow> nat block" where
  "S6_exec b = (\<lambda>x. if b = Func 0 then (x + 1, None) else (x, None))"

definition S6_rd :: "signal \<Rightarrow> nat \<Rightarrow> nat" where
  "S6_rd v = (\<lambda>x. x)"

definition S6_scc :: "nat block list" where
  "S6_scc = map S6_exec [Func 0, Func 1]"

definition S2_scc :: "(nat \<times> nat) block list" where
  "S2_scc = map S2_exec [Func 0, Func 1]"

text \<open>
  S4 and S5: the projection \<open>[b0, b1, b2, b3]\<close>, where block \<open>k\<close> appends \<open>k\<close> to a log,
  and a method at index 2 of the schedule with target 2 that appends 9.
\<close>

definition S4_projection :: "nat list block list" where
  "S4_projection = map (\<lambda>k log. (log @ [k], None)) [0, 1, 2, 3]"

definition S4_method :: "nat list \<Rightarrow> nat list \<times> (exn + unit)" where
  "S4_method log = (log @ [9], Inr ())"

definition S4_failing_method :: "nat list \<Rightarrow> nat list \<times> (exn + unit)" where
  "S4_failing_method log = (log, Inl (Raised ''boom''))"

definition S4_schedule :: "item list" where
  "S4_schedule = [Callable (Func 0), Callable (Func 1), Callable (Port 0), Callable (Func 2),
                  Callable (Func 3)]"

text \<open>S5: the root after the call of S4, with the cursor at \<open>(2, 3)\<close>.\<close>

definition S5_root :: "nat list root" where
  "S5_root = \<lparr>design = [0, 1, 9], new_schedule_index = 2, orig_schedule_index = 3,
               num_cycles_executed = 0\<rparr>"

text \<open>
  A schedule with two callee ports, at the indices 2 and 4, over the projection of S4.
\<close>

definition two_port_schedule :: "item list" where
  "two_port_schedule = [Callable (Func 0), Callable (Func 1), Callable (Port 0),
                        Callable (Func 2), Callable (Port 1), Callable (Func 3)]"

text \<open>
  Inputs of the pass: no tracing hooks, sets iterated in insertion order.  S1 is the
  linear chain, S3 the non-blocking interface with method \<open>Port 0\<close>, guard \<open>Port 1\<close> and
  the update block \<open>Func 0\<close>.
\<close>

definition plain_input :: "(nat, nat) pass_input" where
  "plain_input =
     \<lparr>final_upblks = [], all_update_ff = [], top_level_callee_ports = [],
      in_non_blocking_interface = (\<lambda>x. x \<in> {Port 0, Port 1}),
      method_of = (\<lambda>x. case x of Port k \<Rightarrow> Meth k | y \<Rightarrow> y),
      top_level_nb_ifcs = [], all_constraints = [], top_level_callee_constraints = [],
      constraint_objs = Map.empty, shuffle = (\<lambda>xs. xs), iter_edges = (\<lambda>xs. xs),
      iter_ints = (\<lambda>xs. xs), iter_objs = (\<lambda>xs. xs), name_of = (\<lambda>x. ''blk''),
      exec_of = (\<lambda>x s. (s, None)), read_signal = (\<lambda>v s. s), eq_signal = (\<lambda>v x t. x = t),
      line_trace_on = True, schedule_ff = [],
      has_vcd_func = False, has_collect_text_sigs = False, schedule_posedge_flip = []\<rparr>"

definition S1_input :: "(nat, nat) pass_input" where
  "S1_input = plain_input\<lparr>final_upblks := [Func 0, Func 1, Func 2],
                all_constraints := [(Func 0, Func 1), (Func 1, Func 2)]\<rparr>"

definition S3_input :: "(nat, nat) pass_input" where
  "S3_input = plain_input\<lparr>final_upblks := [Func 0],
                top_level_callee_ports := [Port 0, Port 1],
                top_level_nb_ifcs := [(Port 0, Port 1)],
                top_level_callee_constraints := [(Func 0, Meth 0)],
                shuffle := rev\<rparr>"

text \<open>
  The failing input of the tie-break: the update block \<open>Func 0\<close> and one non-blocking
  interface (method \<open>Port 0\<close>, guard \<open>Port 1\<close>), no constraint, vertices visited in the
  order update block, method, guard.
\<close>

definition tie_break_input :: "(nat, nat) pass_input" where
  "tie_break_input = plain_input\<lparr>final_upblks := [Func 0],
                       top_level_callee_ports := [Port 0, Port 1],
                       top_level_nb_ifcs := [(Port 0, Port 1)]\<rparr>"

text \<open>S2 as an input of the pass.\<close>

definition S2_input :: "(nat \<times> nat, nat) pass_input" where
  "S2_input =
     \<lparr>final_upblks = [Func 0, Func 1], all_update_ff = [], top_level_callee_ports = [],
      in_non_blocking_interface = (\<lambda>x. False), method_of = (\<lambda>x. x),
      top_level_nb_ifcs = [], all_constraints = S2_E, top_level_callee_constraints = [],
      constraint_objs = S2_constraint_objs, shuffle = (\<lambda>xs. xs), iter_edges = (\<lambda>xs. xs),
      iter_ints = (\<lambda>xs. xs), iter_objs = (\<lambda>xs. xs), name_of = S2_name, exec_of = S2_exec,
      read_signal = S2_rd, eq_signal = (\<lambda>v x t. x = t), line_trace_on = True, schedule_ff = [],
      has_vcd_func = False, has_collect_text_sigs = False, schedule_posedge_flip = []\<rparr>"

text \<open>
  S6 as an input of the pass: the cycle of S2, where block \<open>A\<close> increments the trigger
  \<open>s.x\<close> at every call.
\<close>

definition S6_input :: "(nat, nat) pass_input" where
  "S6_input =
     \<lparr>final_upblks = [Func 0, Func 1], all_update_ff = [], top_level_callee_ports = [],
      in_non_blocking_interface = (\<lambda>x. False), method_of = (\<lambda>x. x),
      top_level_nb_ifcs = [], all_constraints = S2_E, top_level_callee_constraints = [],
      constraint_objs = S2_constraint_objs, shuffle = (\<lambda>xs. xs), iter_edges = (\<lambda>xs. xs),
      iter_ints = (\<lambda>xs. xs), iter_objs = (\<lambda>xs. xs), name_of = S2_name, exec_of = S6_exec,
      read_signal = S6_rd, eq_signal = (\<lambda>v x t. x = t), line_trace_on = True,
      schedule_ff = [], has_vcd_func = False, has_collect_text_sigs = False,
      schedule_posedge_flip = []\<rparr>"

text \<open>The projection of S4 with a block \<open>b1\<close> that raises.\<close>

definition S4_failing_projection :: "nat list block list" where
  "S4_failing_projection = S4_projection[1 := (\<lambda>log. (log, Some (Raised ''blk'')))]"

section \<open>Properties of the super-block\<close>

subsection \<open>The function defined by the template\<close>

text \<open>
  What the function of the template does when it runs: if the test \<open>{2}\<close> first holds
  after sweep \<open>k + 1\<close>, it returns with \<open>num_iters = k + 1\<close>; if it fails after each of the
  first 101 sweeps, the function raises with \<open>num_iters = 101\<close>.
\<close>

lemma wrapped_SCC_loop_stabilises:
  assumes "\<forall>i\<le>k. \<not> sweep_raises scc ((sweep scc ^^ i) s)"
      and "\<forall>i<k. \<not> unchanged py_eq rd vars ((sweep scc ^^ i) s) ((sweep scc ^^ Suc i) s)"
      and "unchanged py_eq rd vars ((sweep scc ^^ k) s) ((sweep scc ^^ Suc k) s)"
      and "n + k \<le> 100"
  shows "wrapped_SCC_loop py_eq rd scc vars msg n s = ((sweep scc ^^ Suc k) s, n + Suc k, None)"
  using assms
proof (induction k arbitrary: n s)
  case 0
  then obtain s' where r: "run_blocks scc s = (s', None)"
    by (cases "run_blocks scc s") (auto simp: sweep_raises_def)
  with 0 show ?case
    by (subst wrapped_SCC_loop.simps) (simp add: sweep_def)
next
  case (Suc k)
  from Suc.prems(1) have "\<not> sweep_raises scc s" by (metis funpow_0 le0)
  then obtain s' where r: "run_blocks scc s = (s', None)"
    by (cases "run_blocks scc s") (auto simp: sweep_raises_def)
  then have s': "sweep scc s = s'" by (simp add: sweep_def)
  from Suc.prems(2) have "\<not> unchanged py_eq rd vars ((sweep scc ^^ 0) s) ((sweep scc ^^ Suc 0) s)"
    by blast
  then have ne: "\<not> unchanged py_eq rd vars s s'" using s' by simp
  have a1: "\<forall>i\<le>k. \<not> sweep_raises scc ((sweep scc ^^ i) s')"
  proof (intro allI impI)
    fix i assume "i \<le> k"
    then have "Suc i \<le> Suc k" by simp
    with Suc.prems(1) have "\<not> sweep_raises scc ((sweep scc ^^ Suc i) s)" by blast
    then show "\<not> sweep_raises scc ((sweep scc ^^ i) s')" by (simp add: funpow_swap1 s')
  qed
  have a2: "\<forall>i<k. \<not> unchanged py_eq rd vars ((sweep scc ^^ i) s') ((sweep scc ^^ Suc i) s')"
  proof (intro allI impI)
    fix i assume "i < k"
    then have "Suc i < Suc k" by simp
    with Suc.prems(2)
    have "\<not> unchanged py_eq rd vars ((sweep scc ^^ Suc i) s) ((sweep scc ^^ Suc (Suc i)) s)"
      by blast
    then show "\<not> unchanged py_eq rd vars ((sweep scc ^^ i) s') ((sweep scc ^^ Suc i) s')"
      by (simp add: funpow_swap1 s')
  qed
  have a3: "unchanged py_eq rd vars ((sweep scc ^^ k) s') ((sweep scc ^^ Suc k) s')"
    using Suc.prems(3) by (simp add: funpow_swap1 s')
  have a4: "Suc n + k \<le> 100" using Suc.prems(4) by simp
  have ih: "wrapped_SCC_loop py_eq rd scc vars msg (Suc n) s'
              = ((sweep scc ^^ Suc k) s', Suc n + Suc k, None)"
    by (rule Suc.IH [OF a1 a2 a3 a4])
  have n100: "\<not> n + 1 > 100" using Suc.prems(4) by simp
  show ?case
    apply (subst wrapped_SCC_loop.simps)
    using r ne n100 ih by (simp add: funpow_swap1 s')
qed

lemma wrapped_SCC_loop_diverges:
  assumes "\<forall>i\<le>d. \<not> sweep_raises scc ((sweep scc ^^ i) s)"
      and "\<forall>i\<le>d. \<not> unchanged py_eq rd vars ((sweep scc ^^ i) s) ((sweep scc ^^ Suc i) s)"
      and "n + d = 100"
  shows "wrapped_SCC_loop py_eq rd scc vars msg n s
           = ((sweep scc ^^ Suc d) s, 101, Some (UpblkCyclicError msg))"
  using assms
proof (induction d arbitrary: n s)
  case 0
  then obtain s' where r: "run_blocks scc s = (s', None)"
    by (cases "run_blocks scc s") (auto simp: sweep_raises_def)
  with 0 show ?case
    by (subst wrapped_SCC_loop.simps) (simp add: sweep_def)
next
  case (Suc d)
  from Suc.prems(1) have "\<not> sweep_raises scc s" by (metis funpow_0 le0)
  then obtain s' where r: "run_blocks scc s = (s', None)"
    by (cases "run_blocks scc s") (auto simp: sweep_raises_def)
  then have s': "sweep scc s = s'" by (simp add: sweep_def)
  from Suc.prems(2) have "\<not> unchanged py_eq rd vars ((sweep scc ^^ 0) s) ((sweep scc ^^ Suc 0) s)"
    by blast
  then have ne: "\<not> unchanged py_eq rd vars s s'" using s' by simp
  have a1: "\<forall>i\<le>d. \<not> sweep_raises scc ((sweep scc ^^ i) s')"
  proof (intro allI impI)
    fix i assume "i \<le> d"
    then have "Suc i \<le> Suc d" by simp
    with Suc.prems(1) have "\<not> sweep_raises scc ((sweep scc ^^ Suc i) s)" by blast
    then show "\<not> sweep_raises scc ((sweep scc ^^ i) s')" by (simp add: funpow_swap1 s')
  qed
  have a2: "\<forall>i\<le>d. \<not> unchanged py_eq rd vars ((sweep scc ^^ i) s') ((sweep scc ^^ Suc i) s')"
  proof (intro allI impI)
    fix i assume "i \<le> d"
    then have "Suc i \<le> Suc d" by simp
    with Suc.prems(2)
    have "\<not> unchanged py_eq rd vars ((sweep scc ^^ Suc i) s) ((sweep scc ^^ Suc (Suc i)) s)"
      by blast
    then show "\<not> unchanged py_eq rd vars ((sweep scc ^^ i) s') ((sweep scc ^^ Suc i) s')"
      by (simp add: funpow_swap1 s')
  qed
  have a3: "Suc n + d = 100" using Suc.prems(3) by simp
  have ih: "wrapped_SCC_loop py_eq rd scc vars msg (Suc n) s'
              = ((sweep scc ^^ Suc d) s', 101, Some (UpblkCyclicError msg))"
    by (rule Suc.IH [OF a1 a2 a3])
  have n100: "\<not> n + 1 > 100" using Suc.prems(3) by simp
  show ?case
    apply (subst wrapped_SCC_loop.simps)
    using r ne n100 ih by (simp add: funpow_swap1 s')
qed

lemma wrapped_SCC_raises_on_sweep_101:
  assumes "\<forall>i\<le>100. \<not> sweep_raises scc ((sweep scc ^^ i) s)"
      and "\<forall>i\<le>100. \<not> unchanged py_eq rd vars ((sweep scc ^^ i) s) ((sweep scc ^^ Suc i) s)"
  shows "wrapped_SCC py_eq rd scc vars names s =
           ((sweep scc ^^ 101) s, 101,
            Some (UpblkCyclicError
                    (''Combinational loop detected at runtime in {'' @ join '', '' names @ ''}!'')))"
proof -
  have "wrapped_SCC_loop py_eq rd scc vars (loop_message names) 0 s
          = ((sweep scc ^^ Suc 100) s, 101, Some (UpblkCyclicError (loop_message names)))"
    using assms by (intro wrapped_SCC_loop_diverges) simp_all
  then show ?thesis
    by (simp add: wrapped_SCC_def loop_message_def loop_message_text_def del: funpow.simps)
qed

lemma wrapped_SCC_returns_after_stabilisation:
  assumes "\<forall>i\<le>k. \<not> sweep_raises scc ((sweep scc ^^ i) s)"
      and "\<forall>i<k. \<not> unchanged py_eq rd vars ((sweep scc ^^ i) s) ((sweep scc ^^ Suc i) s)"
      and "unchanged py_eq rd vars ((sweep scc ^^ k) s) ((sweep scc ^^ Suc k) s)"
      and "k \<le> 100"
  shows "wrapped_SCC py_eq rd scc vars names s = ((sweep scc ^^ Suc k) s, Suc k, None)"
  unfolding wrapped_SCC_def
  using wrapped_SCC_loop_stabilises [OF assms(1) assms(2) assms(3), of 0] assms(4) by simp

subsection \<open>The synthesis of a super-block\<close>

lemma gen_srcs_nonempty: "gen_srcs j (v # vs) = Inl (NameError ''Bits'')"
  by (simp add: load_global_def module_globals_def)

text \<open>
  In the autotick pass no super-block is ever built: with a trigger variable the source
  generator stops at the unbound name \<open>Bits\<close>, without one the source does not compile,
  and a missing key of \<open>constraint_objs\<close> raises before both.
\<close>

lemma synthesize_SCC_fails:
  "\<exists>e. synthesize_SCC py_eq rd ex nm iter edges cobjs scc_id scc tmp_schedule = Inl e"
proof (cases "collect_variables edges scc cobjs []")
  case (Inl e)
  then show ?thesis by (simp add: synthesize_SCC_def)
next
  case (Inr vars)
  show ?thesis
  proof (cases vars)
    case Nil
    with Inr show ?thesis
      by (simp add: synthesize_SCC_def scc_block_src_def template_format_def gen_wrapped_SCCblk_def py_compile_def)
  next
    case (Cons v vs)
    with Inr show ?thesis
      by (simp add: synthesize_SCC_def scc_block_src_def gen_srcs_nonempty del: gen_srcs.simps)
  qed
qed

text \<open>
  The generator of \<open>passes/OpenLoopCLPass.py\<close> evaluates no global name and snapshots
  every variable, of whatever kind, by \<open>deepcopy\<close>.
\<close>

lemma upt_from: "[j..<Suc (j + n)] = j # [Suc j..<Suc j + n]"
  by (simp add: upt_conv_Cons)

lemma gen_srcs_deepcopy_snapshots:
  "fst (gen_srcs_deepcopy j vars)
     = map (\<lambda>(k, v). ''_____tmp_'' @ str_of_nat k @ '' = deepcopy('' @ sig_name v @ '')'')
         (zip [j..<j + length vars] vars)"
proof (induction vars arbitrary: j)
  case Nil
  then show ?case by simp
next
  case (Cons v vs)
  obtain c ch where g: "gen_srcs_deepcopy (Suc j) vs = (c, ch)"
    by (cases "gen_srcs_deepcopy (Suc j) vs")
  from Cons [of "Suc j"] g
  have c: "c = map (\<lambda>(k, v). ''_____tmp_'' @ str_of_nat k @ '' = deepcopy('' @ sig_name v @ '')'')
                 (zip [Suc j..<Suc j + length vs] vs)"
    by simp
  have "[j..<j + length (v # vs)] = j # [Suc j..<Suc j + length vs]"
    using upt_from [of j "length vs"] by simp
  then have "zip [j..<j + length (v # vs)] (v # vs) = (j, v) # zip [Suc j..<Suc j + length vs] vs"
    by (simp only: zip_Cons_Cons)
  with g c show ?case by (simp del: upt_Suc)
qed

subsection \<open>C10: a component without trigger variables does not compile\<close>

text \<open>
  C10.  When the union of the constraint variables over the internal edges of a
  non-trivial component is empty, no snapshot and no check is generated, the
  convergence condition is the empty string, the generated source holds the line
  \<open>if :\<close>, compiling it fails with \<open>SyntaxError\<close>, and so does the synthesis of the
  super-block inside the pass, before the block exists and could run.
\<close>

theorem empty_trigger_set_fails_to_compile:
  assumes "collect_variables edges scc cobjs [] = Inr []"
  shows "gen_srcs 0 [] = Inr ([], []) \<and> join '' and '' [] = []
         \<and> (\<exists>src. scc_block_src scc_id [] (map nm (iter scc)) = Inr src
                \<and> src ! 9 = ''              if :'' \<and> py_compile src = Inl SyntaxError)
         \<and> synthesize_SCC py_eq rd ex nm iter edges cobjs scc_id scc tmp_schedule
              = Inl SyntaxError"
  using assms
  by (simp add: synthesize_SCC_def scc_block_src_def template_format_def gen_wrapped_SCCblk_def
        py_compile_def)

lemma S2_without_triggers:
  "(case schedule_with_top_level_callee 10 (S2_input\<lparr>constraint_objs := (\<lambda>e. Some [])\<rparr>) of
      Some (Inl e) \<Rightarrow> e = SyntaxError | _ \<Rightarrow> False)"
  by code_simp

text \<open>
  Scenario S2 with empty constraint sets: the synthesis of its component fails, and so
  does the pass.
\<close>

theorem empty_trigger_set_fails_to_compile_witness:
  "collect_variables S2_E [Func 0, Func 1] (\<lambda>e. Some []) [] = Inr []
   \<and> synthesize_SCC (\<lambda>v x t. x = t) S2_rd S2_exec S2_name (\<lambda>xs. xs) S2_E (\<lambda>e. Some []) 1
        [Func 0, Func 1] [Func 0, Func 1]
        = Inl SyntaxError
   \<and> (case schedule_with_top_level_callee 10 (S2_input\<lparr>constraint_objs := (\<lambda>e. Some [])\<rparr>) of
         Some (Inl e) \<Rightarrow> e = SyntaxError | _ \<Rightarrow> False)"
proof -
  have h: "collect_variables S2_E [Func 0, Func 1] (\<lambda>e. Some []) [] = Inr []"
    by (simp add: S2_E_def set_update_def)
  from empty_trigger_set_fails_to_compile
         [OF h, of 1 S2_name "\<lambda>xs. xs" "\<lambda>v x t. x = t" S2_rd S2_exec "[Func 0, Func 1]"]
  have "synthesize_SCC (\<lambda>v x t. x = t) S2_rd S2_exec S2_name (\<lambda>xs. xs) S2_E (\<lambda>e. Some []) 1
          [Func 0, Func 1] [Func 0, Func 1] = Inl SyntaxError"
    by blast
  with h S2_without_triggers show ?thesis by simp
qed

subsection \<open>C8: the snapshot by kind of variable\<close>

text \<open>
  C8 says that the super-block snapshots a \<open>Bits\<close> signal by value, a bitstruct by
  \<open>clone()\<close> and anything else by \<open>deepcopy\<close>, and compares every snapshot with the value
  after the sweep.  The source generator of the autotick pass is written to do so, but
  its module binds neither \<open>Bits\<close> nor \<open>is_bitstruct_class\<close>: on scenario S2, with the
  \<open>Bits\<close> signal \<open>s.x\<close> on both edges of the cycle, the synthesis of the super-block and
  the pass raise \<open>NameError\<close> before any snapshot statement exists.
\<close>

theorem snapshot_dispatch_raises_NameError:
  "synthesize_SCC (\<lambda>v x t. x = t) S2_rd S2_exec S2_name (\<lambda>xs. xs) S2_E S2_constraint_objs 1
     [Func 0, Func 1] [Func 0, Func 1]
     = Inl (NameError ''Bits'')
   \<and> (case schedule_with_top_level_callee 10 S2_input of
         Some (Inl e) \<Rightarrow> e = NameError ''Bits'' | _ \<Rightarrow> False)"
proof -
  have "synthesize_SCC (\<lambda>v x t. x = t) S2_rd S2_exec S2_name (\<lambda>xs. xs) S2_E S2_constraint_objs 1
          [Func 0, Func 1] [Func 0, Func 1]
     = Inl (NameError ''Bits'')"
    by (simp add: synthesize_SCC_def S2_E_def S2_constraint_objs_def set_update_def scc_block_src_def
        load_global_def module_globals_def)
  moreover have "(case schedule_with_top_level_callee 10 S2_input of
         Some (Inl e) \<Rightarrow> e = NameError ''Bits'' | _ \<Rightarrow> False)"
    by code_simp
  ultimately show ?thesis by simp
qed

section \<open>Properties of the method cursor\<close>

lemma run_range_trace:
  "run_range proj ks u = (u', tr, None) \<Longrightarrow> tr = map BlockCall ks"
proof (induction ks arbitrary: u u' tr)
  case Nil
  then show ?case by simp
next
  case (Cons k ks)
  then show ?case
    by (auto split: if_splits prod.splits option.splits)
qed

lemma run_range_prefix:
  "run_range proj ks u = (u', tr, r) \<Longrightarrow> \<exists>rest. map BlockCall ks = tr @ rest"
proof (induction ks arbitrary: u u' tr r)
  case Nil
  then show ?case by simp
next
  case (Cons k ks)
  show ?case
  proof (cases "k < length proj")
    case False
    with Cons.prems show ?thesis by simp
  next
    case True
    obtain u1 r1 where b: "(proj ! k) u = (u1, r1)" by (cases "(proj ! k) u")
    show ?thesis
    proof (cases r1)
      case (Some e)
      with True b Cons.prems show ?thesis by auto
    next
      case None
      obtain u2 tr2 r2 where rr: "run_range proj ks u1 = (u2, tr2, r2)"
        by (cases "run_range proj ks u1") auto
      from Cons.IH [OF rr] obtain rest where "map BlockCall ks = tr2 @ rest" by blast
      with True b None rr Cons.prems show ?thesis by auto
    qed
  qed
qed

lemma normal_tick_cursor:
  "normal_tick proj tp = (tp', tr, r) \<Longrightarrow> cursor tp' = cursor tp"
  by (auto simp: normal_tick_def cursor_def split: prod.splits)

lemma normal_tick_trace:
  "normal_tick proj tp = (tp', tr, None) \<Longrightarrow> tr = map BlockCall [0..<length proj]"
  by (auto simp: normal_tick_def split: prod.splits dest: run_range_trace)

lemma ticks_cursor: "cursor (fst (ticks k proj tp)) = cursor tp"
proof (induction k arbitrary: tp)
  case 0
  then show ?case by simp
next
  case (Suc k)
  obtain tp' tr r where t: "normal_tick proj tp = (tp', tr, r)"
    by (cases "normal_tick proj tp") auto
  from normal_tick_cursor [OF t] have c: "cursor tp' = cursor tp" .
  show ?case
  proof (cases r)
    case None
    obtain tp'' tr' r' where t2: "ticks k proj tp' = (tp'', tr', r')"
      by (cases "ticks k proj tp'") auto
    from Suc.IH [of tp'] t2 have "cursor tp'' = cursor tp'" by simp
    with t None t2 c show ?thesis by simp
  next
    case (Some e)
    with t c show ?thesis by simp
  qed
qed

lemma ticks_trace:
  "ticks k proj tp = (tp', tr, None) \<Longrightarrow> tr = concat (replicate k (map BlockCall [0..<length proj]))"
proof (induction k arbitrary: tp tp' tr)
  case 0
  then show ?case by simp
next
  case (Suc k)
  obtain tp1 tr1 r1 where t: "normal_tick proj tp = (tp1, tr1, r1)"
    by (cases "normal_tick proj tp") auto
  show ?case
  proof (cases r1)
    case (Some e)
    with t Suc.prems show ?thesis by simp
  next
    case None
    obtain tp2 tr2 r2 where t2: "ticks k proj tp1 = (tp2, tr2, r2)"
      by (cases "ticks k proj tp1") auto
    with t None Suc.prems have r2: "r2 = None" and tr: "tr = tr1 @ tr2" by auto
    from normal_tick_trace t None have "tr1 = map BlockCall [0..<length proj]" by blast
    moreover from Suc.IH t2 r2 have "tr2 = concat (replicate k (map BlockCall [0..<length proj]))" by blast
    ultimately show ?thesis using tr by simp
  qed
qed

lemma find_next_func_props:
  "i \<le> length sched \<Longrightarrow>
     i \<le> find_next_func sched i \<and> find_next_func sched i \<le> length sched
     \<and> (\<forall>k. i \<le> k \<and> k < find_next_func sched i \<longrightarrow> is_callee (sched ! k))
     \<and> (find_next_func sched i < length sched \<longrightarrow> \<not> is_callee (sched ! find_next_func sched i))"
proof (induction sched i rule: find_next_func.induct)
  case (1 schedule next_func)
  show ?case
  proof (cases "next_func < length schedule \<and> is_callee (schedule ! next_func)")
    case True
    then have ih: "next_func + 1 \<le> find_next_func schedule (next_func + 1)
        \<and> find_next_func schedule (next_func + 1) \<le> length schedule
        \<and> (\<forall>k. next_func + 1 \<le> k \<and> k < find_next_func schedule (next_func + 1) \<longrightarrow> is_callee (schedule ! k))
        \<and> (find_next_func schedule (next_func + 1) < length schedule \<longrightarrow>
              \<not> is_callee (schedule ! find_next_func schedule (next_func + 1)))"
      using "1.IH" by simp
    have eq: "find_next_func schedule next_func = find_next_func schedule (next_func + 1)"
      using True by (subst find_next_func.simps) simp
    have "\<forall>k. next_func \<le> k \<and> k < find_next_func schedule (next_func + 1) \<longrightarrow> is_callee (schedule ! k)"
    proof (intro allI impI)
      fix k assume k: "next_func \<le> k \<and> k < find_next_func schedule (next_func + 1)"
      show "is_callee (schedule ! k)"
      proof (cases "k = next_func")
        case True
        with \<open>next_func < length schedule \<and> is_callee (schedule ! next_func)\<close> show ?thesis by simp
      next
        case False
        with k have "next_func + 1 \<le> k" by simp
        with k ih show ?thesis by blast
      qed
    qed
    with ih eq show ?thesis by simp
  next
    case False
    then have "find_next_func schedule next_func = next_func"
      by (subst find_next_func.simps) auto
    with False "1.prems" show ?thesis by auto
  qed
qed

lemma methodless_take_callees:
  assumes "\<forall>k. i \<le> k \<and> k < n \<longrightarrow> is_callee (sched ! k)" and "i \<le> n" and "n \<le> length sched"
  shows "methodless (take n sched) = methodless (take i sched)"
proof -
  have "take n sched = take i sched @ take (n - i) (drop i sched)"
    using assms(2) by (metis le_add_diff_inverse take_add)
  moreover have "filter (\<lambda>x. \<not> is_callee x) (take (n - i) (drop i sched)) = []"
  proof -
    have "\<forall>x \<in> set (take (n - i) (drop i sched)). is_callee x"
    proof
      fix x assume "x \<in> set (take (n - i) (drop i sched))"
      then obtain k where k: "k < length (take (n - i) (drop i sched))" "x = take (n - i) (drop i sched) ! k"
        by (metis in_set_conv_nth)
      then have "k < n - i" by simp
      with k assms(3) have "x = sched ! (i + k)" by simp
      moreover have "i \<le> i + k \<and> i + k < n" using \<open>k < n - i\<close> by simp
      ultimately show "is_callee x" using assms(1) by blast
    qed
    then show ?thesis by (simp add: filter_empty_conv)
  qed
  ultimately show ?thesis by (simp add: methodless_def)
qed

lemma mapping_from_notin: "x \<notin> set xs \<Longrightarrow> mapping_from i xs m x = m x"
  by (induction xs arbitrary: i m) auto

lemma mapping_from_distinct:
  "distinct xs \<Longrightarrow> k < length xs \<Longrightarrow> mapping_from i xs m (xs ! k) = Some (i + k)"
proof (induction xs arbitrary: i m k)
  case Nil
  then show ?case by simp
next
  case (Cons x xs)
  show ?case
  proof (cases k)
    case 0
    with Cons.prems show ?thesis by (simp add: mapping_from_notin)
  next
    case (Suc k')
    with Cons.prems have "mapping_from (i + 1) xs (m(x \<mapsto> i)) (xs ! k') = Some (i + 1 + k')"
      by (intro Cons.IH) auto
    with Suc show ?thesis by simp
  qed
qed

lemma methodless_index:
  assumes "n < length sched" and "\<not> is_callee (sched ! n)"
  shows "length (methodless (take n sched)) < length (methodless sched)
         \<and> methodless sched ! length (methodless (take n sched)) = sched ! n"
proof -
  have "methodless (take n sched @ sched ! n # drop (Suc n) sched)
          = methodless (take n sched) @ sched ! n # methodless (drop (Suc n) sched)"
    using assms(2) by (simp add: methodless_def)
  moreover have "take n sched @ sched ! n # drop (Suc n) sched = sched"
    using assms(1) by (simp add: id_take_nth_drop [symmetric])
  ultimately have "methodless sched = methodless (take n sched) @ sched ! n # methodless (drop (Suc n) sched)"
    by simp
  then show ?thesis by (simp add: nth_append)
qed

lemma map_next_func_eq:
  assumes "map_next_func sched i = Inr t" and "distinct (methodless sched)"
  shows "t = length (methodless (take (i + 1) sched))"
proof -
  define nf where "nf = find_next_func sched (i + 1)"
  from assms(1) have nf: "nf < length sched"
    by (auto simp: map_next_func_def Let_def nf_def split: if_splits)
  then have le: "i + 1 \<le> length sched"
    using find_next_func.simps [of sched "i + 1"] by (auto simp: nf_def split: if_splits)
  from find_next_func_props [OF le] nf
  have p: "i + 1 \<le> nf" "\<forall>k. i + 1 \<le> k \<and> k < nf \<longrightarrow> is_callee (sched ! k)" "\<not> is_callee (sched ! nf)"
    by (auto simp: nf_def)
  from methodless_index [OF nf p(3)]
  have idx: "length (methodless (take nf sched)) < length (methodless sched)"
    "methodless sched ! length (methodless (take nf sched)) = sched ! nf" by auto
  have "mapping (methodless sched) (sched ! nf) = Some (length (methodless (take nf sched)))"
    using mapping_from_distinct [OF assms(2) idx(1), of 0 Map.empty] idx(2)
    by (simp add: mapping_def)
  with assms(1) nf have "t = length (methodless (take nf sched))"
    by (simp add: map_next_func_def Let_def nf_def)
  also have "methodless (take nf sched) = methodless (take (i + 1) sched)"
    using p(1) p(2) nf by (intro methodless_take_callees) auto
  finally show ?thesis .
qed

lemma methodless_take_Suc_callee:
  "i < length sched \<Longrightarrow> is_callee (sched ! i) \<Longrightarrow> methodless (take (Suc i) sched) = methodless (take i sched)"
  by (simp add: take_Suc_conv_app_nth methodless_def)

lemma methodless_take_mono:
  "i \<le> n \<Longrightarrow> length (methodless (take i sched)) \<le> length (methodless (take n sched))"
proof -
  assume "i \<le> n"
  then have "take n sched = take i sched @ take (n - i) (drop i sched)"
    by (metis le_add_diff_inverse take_add)
  then show ?thesis by (simp add: methodless_def)
qed

lemma nth_segment: "map ((!) (p @ q @ r)) [length p..<length p + length q] = q"
proof (rule nth_equalityI)
  show "length (map ((!) (p @ q @ r)) [length p..<length p + length q]) = length q" by simp
next
  fix i assume "i < length (map ((!) (p @ q @ r)) [length p..<length p + length q])"
  then have "i < length q" by simp
  then show "map ((!) (p @ q @ r)) [length p..<length p + length q] ! i = q ! i"
    by (simp add: nth_append)
qed

lemma methodless_segment:
  assumes "a \<le> b" and "b \<le> length sched"
  shows "map ((!) (methodless sched)) [length (methodless (take a sched))..<length (methodless (take b sched))]
           = methodless (take (b - a) (drop a sched))"
proof -
  let ?p = "methodless (take a sched)" and ?q = "methodless (take (b - a) (drop a sched))"
    and ?r = "methodless (drop b sched)"
  have "take b sched = take a sched @ take (b - a) (drop a sched)"
    using assms(1) by (metis le_add_diff_inverse take_add)
  then have pb: "methodless (take b sched) = ?p @ ?q" by (simp add: methodless_def)
  have "methodless sched = methodless (take b sched) @ ?r"
    using filter_append [of "\<lambda>x. \<not> is_callee x" "take b sched" "drop b sched"]
    by (simp add: methodless_def)
  with pb have all: "methodless sched = ?p @ ?q @ ?r" by simp
  have "map ((!) (?p @ ?q @ ?r)) [length ?p..<length ?p + length ?q] = ?q"
    by (rule nth_segment)
  with all pb show ?thesis by simp
qed

text \<open>The loop over two ranges in a row, as the wrap-around of a wrapper runs it.\<close>

lemma run_range_append:
  "run_range proj (ks @ ls) u =
     (case run_range proj ks u of
        (u1, tr1, Some e) \<Rightarrow> (u1, tr1, Some e)
      | (u1, tr1, None) \<Rightarrow>
          (case run_range proj ls u1 of (u2, tr2, r) \<Rightarrow> (u2, tr1 @ tr2, r)))"
proof (induction ks arbitrary: u)
  case Nil
  then show ?case by (simp split: prod.splits)
next
  case (Cons k ks)
  then show ?case by (simp split: prod.splits option.splits)
qed

lemma find_next_method_props:
  "i \<le> length sched \<Longrightarrow>
     i \<le> find_next_method sched i \<and> find_next_method sched i \<le> length sched
     \<and> (\<forall>k. i \<le> k \<and> k < find_next_method sched i \<longrightarrow> \<not> is_callee (sched ! k))
     \<and> (find_next_method sched i < length sched \<longrightarrow> is_callee (sched ! find_next_method sched i))"
proof (induction sched i rule: find_next_method.induct)
  case (1 schedule next_method)
  show ?case
  proof (cases "next_method < length schedule \<and> \<not> is_callee (schedule ! next_method)")
    case True
    then have ih: "next_method + 1 \<le> find_next_method schedule (next_method + 1)
        \<and> find_next_method schedule (next_method + 1) \<le> length schedule
        \<and> (\<forall>k. next_method + 1 \<le> k \<and> k < find_next_method schedule (next_method + 1) \<longrightarrow> \<not> is_callee (schedule ! k))
        \<and> (find_next_method schedule (next_method + 1) < length schedule \<longrightarrow>
              is_callee (schedule ! find_next_method schedule (next_method + 1)))"
      using "1.IH" by simp
    have eq: "find_next_method schedule next_method = find_next_method schedule (next_method + 1)"
      using True by (subst find_next_method.simps) simp
    have "\<forall>k. next_method \<le> k \<and> k < find_next_method schedule (next_method + 1) \<longrightarrow> \<not> is_callee (schedule ! k)"
    proof (intro allI impI)
      fix k assume k: "next_method \<le> k \<and> k < find_next_method schedule (next_method + 1)"
      show "\<not> is_callee (schedule ! k)"
      proof (cases "k = next_method")
        case True
        with \<open>next_method < length schedule \<and> \<not> is_callee (schedule ! next_method)\<close> show ?thesis by simp
      next
        case False
        with k have "next_method + 1 \<le> k" by simp
        with k ih show ?thesis by blast
      qed
    qed
    with ih eq show ?thesis by simp
  next
    case False
    then have "find_next_method schedule next_method = next_method"
      by (subst find_next_method.simps) auto
    with False "1.prems" show ?thesis by auto
  qed
qed

lemma mapping_next_func:
  assumes nf: "find_next_func sched k < length sched" and d: "distinct (methodless sched)"
      and k: "k \<le> length sched"
  shows "mapping (methodless sched) (sched ! find_next_func sched k)
           = Some (length (methodless (take k sched)))
         \<and> length (methodless (take k sched)) < length (methodless sched)"
proof -
  define nf where "nf = find_next_func sched k"
  from find_next_func_props [OF k] nf
  have p: "k \<le> nf" "\<forall>j. k \<le> j \<and> j < nf \<longrightarrow> is_callee (sched ! j)" "\<not> is_callee (sched ! nf)"
    and nfl: "nf < length sched"
    by (auto simp: nf_def)
  from methodless_index [OF nfl p(3)]
  have idx: "length (methodless (take nf sched)) < length (methodless sched)"
    "methodless sched ! length (methodless (take nf sched)) = sched ! nf" by auto
  have m: "mapping (methodless sched) (sched ! nf) = Some (length (methodless (take nf sched)))"
    using mapping_from_distinct [OF d idx(1), of 0 Map.empty] idx(2)
    by (simp add: mapping_def)
  have "methodless (take nf sched) = methodless (take k sched)"
    using p(1) p(2) nfl by (intro methodless_take_callees) auto
  with m idx(1) show ?thesis by (simp add: nf_def)
qed

lemma map_next_func_of_next_method_eq:
  assumes "map_next_func_of_next_method sched i = Inr n" and d: "distinct (methodless sched)"
  shows "n = length (methodless (take (find_next_method sched (i + 1)) sched))
         \<and> (find_next_method sched (i + 1) < length sched \<longrightarrow> n < length (methodless sched))"
proof (cases "find_next_method sched (i + 1) < length sched")
  case True
  let ?fm = "find_next_method sched (i + 1)"
  from assms(1) True have nf: "find_next_func sched ?fm < length sched"
    by (auto simp: map_next_func_of_next_method_def Let_def split: if_splits)
  from True have "?fm \<le> length sched" by simp
  from mapping_next_func [OF nf d this] assms(1) True nf show ?thesis
    by (simp add: map_next_func_of_next_method_def Let_def)
next
  case False
  with assms(1) show ?thesis
    by (simp add: map_next_func_of_next_method_def Let_def)
qed

lemma next_method_le:
  assumes "a < b" "b < length sched" "is_callee (sched ! b)"
  shows "a + 1 \<le> find_next_method sched (a + 1) \<and> find_next_method sched (a + 1) \<le> b"
proof -
  from assms have le: "a + 1 \<le> length sched" by simp
  from find_next_method_props [OF le]
  have p: "a + 1 \<le> find_next_method sched (a + 1)"
    "\<forall>k. a + 1 \<le> k \<and> k < find_next_method sched (a + 1) \<longrightarrow> \<not> is_callee (sched ! k)"
    by auto
  have "find_next_method sched (a + 1) \<le> b"
  proof (rule ccontr)
    assume "\<not> find_next_method sched (a + 1) \<le> b"
    then have "a + 1 \<le> b \<and> b < find_next_method sched (a + 1)" using assms(1) by simp
    with p(2) have "\<not> is_callee (sched ! b)" by blast
    with assms(3) show False by simp
  qed
  with p(1) show ?thesis by simp
qed

subsection \<open>C4: ticks and the cycle counter\<close>

text \<open>
  C4, as the code has it.  After \<open>k\<close> calls of the installed \<open>tick()\<close>, with no method
  invocation in between, \<open>num_cycles_executed\<close> and both indices of the cursor have the
  values they had before (0 after elaboration), whatever \<open>k\<close> is; when no block raises,
  the \<open>k\<close> ticks have run the entire methodless projection \<open>k\<close> times, in order.
\<close>

theorem ticks_leave_cycle_counter:
  "num_cycles_executed (fst (ticks k schedule_no_method tp)) = num_cycles_executed tp
   \<and> new_schedule_index (fst (ticks k schedule_no_method tp)) = new_schedule_index tp
   \<and> orig_schedule_index (fst (ticks k schedule_no_method tp)) = orig_schedule_index tp
   \<and> (snd (snd (ticks k schedule_no_method tp)) = None \<longrightarrow>
        fst (snd (ticks k schedule_no_method tp))
          = concat (replicate k (map BlockCall [0..<length schedule_no_method])))"
proof -
  have "cursor (fst (ticks k schedule_no_method tp)) = cursor tp" by (rule ticks_cursor)
  moreover have "snd (snd (ticks k schedule_no_method tp)) = None \<longrightarrow>
        fst (snd (ticks k schedule_no_method tp))
          = concat (replicate k (map BlockCall [0..<length schedule_no_method]))"
    using ticks_trace [of k schedule_no_method tp] by (cases "ticks k schedule_no_method tp") auto
  ultimately show ?thesis by (simp add: cursor_def)
qed

text \<open>Scenario S4 without its method: two ticks over four blocks.\<close>

lemma S4_ticks2:
  "ticks 2 S4_projection (elaborated [])
     = (\<lparr>design = [0, 1, 2, 3, 0, 1, 2, 3], new_schedule_index = 0, orig_schedule_index = 0,
          num_cycles_executed = 0\<rparr>,
        [BlockCall 0, BlockCall 1, BlockCall 2, BlockCall 3,
         BlockCall 0, BlockCall 1, BlockCall 2, BlockCall 3], None)"
  by (simp add: numeral_2_eq_2 normal_tick_def S4_projection_def elaborated_def upt_rec)

theorem ticks_leave_cycle_counter_witness:
  "snd (snd (ticks 2 S4_projection (elaborated []))) = None
   \<and> num_cycles_executed (fst (ticks 2 S4_projection (elaborated []))) = 0
   \<and> fst (snd (ticks 2 S4_projection (elaborated [])))
        = [BlockCall 0, BlockCall 1, BlockCall 2, BlockCall 3,
           BlockCall 0, BlockCall 1, BlockCall 2, BlockCall 3]"
  using ticks_leave_cycle_counter [of 2 S4_projection "elaborated []"]
  by (simp add: S4_ticks2)

text \<open>
  The counter of C4 as stated, \<open>num_cycles_executed = k\<close> after \<open>k\<close> ticks, fails for
  \<open>k = 2\<close>.
\<close>

theorem ticks_count_cycles_counterexample:
  "\<not> (\<forall>k. num_cycles_executed (fst (ticks k S4_projection (elaborated ([] :: nat list)))) = k)"
proof
  assume "\<forall>k. num_cycles_executed (fst (ticks k S4_projection (elaborated ([] :: nat list)))) = k"
  then have "num_cycles_executed (fst (ticks 2 S4_projection (elaborated ([] :: nat list)))) = 2" by blast
  then show False by (simp add: S4_ticks2)
qed

subsection \<open>C7: an exception inside a method wrapper\<close>

text \<open>
  C7, as the code has it.  Let the wrapper of the autotick pass be called for the port
  at index \<open>m\<close> with target \<open>t\<close>; its prefix is the run of the projected blocks from the
  cursor to \<open>t\<close>, through the end of the projection when the slot of the port has
  passed.  An exception \<open>e\<close> raised in the prefix (by a block, or by an index past the
  end of the projection) ends the call with \<open>e\<close>: the blocks after it and the method
  are not run.  An exception \<open>e\<close> of the method body, after a prefix without one,
  ends the call with \<open>e\<close>.  Nothing else makes the call raise, so no exception is
  swallowed, replaced or retried.  Whenever the call raises, both indices of the
  cursor keep their values from before the invocation, and the cycle counter keeps
  its value unless the wrapper had completed its sweep to the end of the projection,
  which increments the counter in place.
\<close>

theorem method_error_keeps_indices:
  assumes pre: "run_range proj
                  (if orig_schedule_index tp > m
                   then [new_schedule_index tp..<length proj] @ [0..<t]
                   else [new_schedule_index tp..<t]) (design tp) = (u, trp, r)"
      and call: "actual_method proj t m method tp = (tp', tr, res)"
  shows "(r = Some e \<longrightarrow> res = Inl e \<and> tr = trp \<and> design tp' = u)
         \<and> (r = None \<and> snd (method u) = Inl e \<longrightarrow>
               res = Inl e \<and> tr = trp @ [MethodCall m] \<and> design tp' = fst (method u))
         \<and> (res = Inl e \<longrightarrow>
               (r = Some e \<or> r = None \<and> snd (method u) = Inl e)
               \<and> new_schedule_index tp' = new_schedule_index tp
               \<and> orig_schedule_index tp' = orig_schedule_index tp
               \<and> num_cycles_executed tp' =
                   (if orig_schedule_index tp > m
                       \<and> snd (snd (run_range proj [new_schedule_index tp..<length proj]
                                      (design tp))) = None
                    then num_cycles_executed tp + 1 else num_cycles_executed tp))"
proof (cases "orig_schedule_index tp > m")
  case True
  obtain u1 tr1 r1 where r1:
    "run_range proj [new_schedule_index tp..<length proj] (design tp) = (u1, tr1, r1)"
    by (cases "run_range proj [new_schedule_index tp..<length proj] (design tp)") auto
  show ?thesis
  proof (cases r1)
    case (Some x)
    with pre call True r1 show ?thesis
      by (auto simp: actual_method_def Let_def run_range_append)
  next
    case None
    obtain u2 tr2 r2 where r2: "run_range proj [0..<t] u1 = (u2, tr2, r2)"
      by (cases "run_range proj [0..<t] u1") auto
    show ?thesis
    proof (cases r2)
      case (Some x)
      with pre call True r1 None r2 show ?thesis
        by (auto simp: actual_method_def Let_def run_range_append)
    next
      case n2: None
      obtain u3 res3 where m: "method u2 = (u3, res3)" by (cases "method u2") auto
      with pre call True r1 None r2 n2 show ?thesis
        by (cases res3) (auto simp: actual_method_def Let_def run_range_append)
    qed
  qed
next
  case False
  obtain u2 tr2 r2 where r2:
    "run_range proj [new_schedule_index tp..<t] (design tp) = (u2, tr2, r2)"
    by (cases "run_range proj [new_schedule_index tp..<t] (design tp)") auto
  show ?thesis
  proof (cases r2)
    case (Some x)
    with pre call False r2 show ?thesis
      by (auto simp: actual_method_def Let_def)
  next
    case None
    obtain u3 res3 where m: "method u2 = (u3, res3)" by (cases "method u2") auto
    with pre call False r2 None show ?thesis
      by (cases res3) (auto simp: actual_method_def Let_def)
  qed
qed

text \<open>
  Scenario S5 with a method that raises: the wrapper runs \<open>b2, b3\<close>, counts the cycle,
  runs \<open>b0, b1\<close> and calls the method; the indices stay at \<open>(2, 3)\<close> and the cycle
  counter is 1.  And S4 with a block \<open>b1\<close> that raises: the method is not called.
\<close>

lemma S5_failing_call:
  "actual_method S4_projection 2 2 S4_failing_method S5_root
     = (\<lparr>design = [0, 1, 9, 2, 3, 0, 1], new_schedule_index = 2, orig_schedule_index = 3,
          num_cycles_executed = 1\<rparr>,
        [BlockCall 2, BlockCall 3, BlockCall 0, BlockCall 1, MethodCall 2], Inl (Raised ''boom''))"
  by (simp add: actual_method_def S5_root_def S4_projection_def S4_failing_method_def upt_rec)

lemma S5_prefix:
  "run_range S4_projection
     (if orig_schedule_index S5_root > 2
      then [new_schedule_index S5_root..<length S4_projection] @ [0..<2]
      else [new_schedule_index S5_root..<2]) (design S5_root)
     = ([0, 1, 9, 2, 3, 0, 1], [BlockCall 2, BlockCall 3, BlockCall 0, BlockCall 1], None)"
  by (simp add: S5_root_def S4_projection_def upt_rec)

lemma failing_block_call:
  "actual_method S4_failing_projection 2 2 S4_method (elaborated [])
     = (\<lparr>design = [0], new_schedule_index = 0, orig_schedule_index = 0,
          num_cycles_executed = 0\<rparr>,
        [BlockCall 0, BlockCall 1], Inl (Raised ''blk''))"
  by (simp add: actual_method_def elaborated_def S4_failing_projection_def S4_projection_def
        S4_method_def upt_rec)

lemma failing_block_prefix:
  "run_range S4_failing_projection
     (if orig_schedule_index (elaborated ([] :: nat list)) > 2
      then [new_schedule_index (elaborated ([] :: nat list))..<length S4_failing_projection] @ [0..<2]
      else [new_schedule_index (elaborated ([] :: nat list))..<2]) (design (elaborated []))
     = ([0], [BlockCall 0, BlockCall 1], Some (Raised ''blk''))"
  by (simp add: elaborated_def S4_failing_projection_def S4_projection_def upt_rec)

theorem method_error_keeps_indices_witness:
  "snd (snd (actual_method S4_projection 2 2 S4_failing_method S5_root)) = Inl (Raised ''boom'')
   \<and> fst (snd (actual_method S4_projection 2 2 S4_failing_method S5_root))
        = [BlockCall 2, BlockCall 3, BlockCall 0, BlockCall 1, MethodCall 2]
   \<and> new_schedule_index (fst (actual_method S4_projection 2 2 S4_failing_method S5_root)) = 2
   \<and> orig_schedule_index (fst (actual_method S4_projection 2 2 S4_failing_method S5_root)) = 3
   \<and> num_cycles_executed (fst (actual_method S4_projection 2 2 S4_failing_method S5_root)) = 1
   \<and> snd (snd (actual_method S4_failing_projection 2 2 S4_method (elaborated [])))
        = Inl (Raised ''blk'')
   \<and> fst (snd (actual_method S4_failing_projection 2 2 S4_method (elaborated [])))
        = [BlockCall 0, BlockCall 1]"
proof -
  note w1 = method_error_keeps_indices [OF S5_prefix S5_failing_call, of "Raised ''boom''"]
  note w2 = method_error_keeps_indices [OF failing_block_prefix failing_block_call, of "Raised ''blk''"]
  from w1 have a: "new_schedule_index \<lparr>design = [0, 1, 9, 2, 3, 0, 1 :: nat], new_schedule_index = 2,
                     orig_schedule_index = 3, num_cycles_executed = 1\<rparr> = new_schedule_index S5_root
     \<and> orig_schedule_index \<lparr>design = [0, 1, 9, 2, 3, 0, 1 :: nat], new_schedule_index = 2,
                     orig_schedule_index = 3, num_cycles_executed = 1\<rparr> = orig_schedule_index S5_root"
    by blast
  from w2 have b: "(Inl (Raised ''blk'') :: exn + unit) = Inl (Raised ''blk'')
                   \<and> [BlockCall 0, BlockCall 1] = [BlockCall 0, BlockCall 1]"
    by blast
  from a b show ?thesis
    by (simp add: S5_failing_call failing_block_call)
qed

text \<open>
  So the cursor of C7 as stated, the triple with the cycle counter, is not left
  unchanged.
\<close>

theorem method_error_cursor_counterexample:
  "\<not> (\<forall>tp' tr e. actual_method S4_projection 2 2 S4_failing_method S5_root = (tp', tr, Inl e)
          \<longrightarrow> cursor tp' = cursor S5_root)"
proof
  assume "\<forall>tp' tr e. actual_method S4_projection 2 2 S4_failing_method S5_root = (tp', tr, Inl e)
          \<longrightarrow> cursor tp' = cursor S5_root"
  with S5_failing_call
  have "cursor \<lparr>design = [0, 1, 9, 2, 3, 0, 1 :: nat], new_schedule_index = 2, orig_schedule_index = 3,
          num_cycles_executed = 1\<rparr> = cursor S5_root"
    by blast
  then show False by (simp add: cursor_def S5_root_def)
qed

subsection \<open>C3: the window of a method call\<close>

lemma actual_method_returns:
  assumes "actual_method proj t m method tp = (tp', tr, Inr ret)"
  shows "tr = (if orig_schedule_index tp > m
               then map BlockCall [new_schedule_index tp..<length proj] @ map BlockCall [0..<t]
               else map BlockCall [new_schedule_index tp..<t]) @ [MethodCall m]
         \<and> new_schedule_index tp' = (if orig_schedule_index tp > m then t else max (new_schedule_index tp) t)
         \<and> orig_schedule_index tp' = m + 1
         \<and> num_cycles_executed tp' =
              (if orig_schedule_index tp > m then num_cycles_executed tp + 1 else num_cycles_executed tp)"
proof (cases "orig_schedule_index tp > m")
  case True
  from assms True obtain u1 tr1 where r1:
    "run_range proj [new_schedule_index tp..<length proj] (design tp) = (u1, tr1, None)"
    by (cases "run_range proj [new_schedule_index tp..<length proj] (design tp)")
       (auto simp: actual_method_def Let_def split: option.splits)
  from assms True r1 obtain u2 tr2 where r2: "run_range proj [0..<t] u1 = (u2, tr2, None)"
    by (cases "run_range proj [0..<t] u1")
       (auto simp: actual_method_def Let_def split: option.splits)
  from run_range_trace [OF r1] run_range_trace [OF r2] assms True r1 r2 show ?thesis
    by (auto simp: actual_method_def Let_def split: prod.splits sum.splits)
next
  case False
  from assms False obtain u2 tr2 where r2:
    "run_range proj [new_schedule_index tp..<t] (design tp) = (u2, tr2, None)"
    by (cases "run_range proj [new_schedule_index tp..<t] (design tp)")
       (auto simp: actual_method_def Let_def split: option.splits)
  from run_range_trace [OF r2] assms False r2 show ?thesis
    by (auto simp: actual_method_def Let_def split: prod.splits sum.splits)
qed

lemma actual_method_consistent:
  assumes call: "actual_method proj t a method tp = (tp', tr, Inr ret)"
      and t: "map_next_func schedule a = Inr t"
      and d: "distinct (methodless schedule)"
      and c: "cursor_consistent schedule tp"
  shows "new_schedule_index tp' = t \<and> orig_schedule_index tp' = a + 1 \<and> cursor_consistent schedule tp'"
proof -
  from map_next_func_eq [OF t d] have teq: "t = length (methodless (take (a + 1) schedule))" .
  from actual_method_returns [OF call]
  have n: "new_schedule_index tp' = (if orig_schedule_index tp > a then t else max (new_schedule_index tp) t)"
    and o: "orig_schedule_index tp' = a + 1" by auto
  have "new_schedule_index tp' = t"
  proof (cases "orig_schedule_index tp > a")
    case True
    with n show ?thesis by simp
  next
    case False
    then have "orig_schedule_index tp \<le> a + 1" by simp
    from methodless_take_mono [OF this, of schedule] c teq
    have "new_schedule_index tp \<le> t" by (simp add: cursor_consistent_def)
    with n False show ?thesis by simp
  qed
  with o teq show ?thesis by (simp add: cursor_consistent_def)
qed

lemma actual_method_next_returns:
  assumes "actual_method_next proj t n m nm method tp = (tp', tr, Inr ret)"
  shows "tr = (if orig_schedule_index tp > m
               then map BlockCall [new_schedule_index tp..<length proj] @ map BlockCall [0..<t]
               else map BlockCall [new_schedule_index tp..<t]) @ [MethodCall m]
              @ map BlockCall [(if orig_schedule_index tp > m then t else max (new_schedule_index tp) t)..<n]
         \<and> cursor tp' =
             (if max (if orig_schedule_index tp > m then t else max (new_schedule_index tp) t) n = length proj
              then (0, 0, (if orig_schedule_index tp > m then num_cycles_executed tp + 1
                           else num_cycles_executed tp) + 1)
              else (max (if orig_schedule_index tp > m then t else max (new_schedule_index tp) t) n, nm,
                    (if orig_schedule_index tp > m then num_cycles_executed tp + 1
                     else num_cycles_executed tp)))"
proof (cases "orig_schedule_index tp > m")
  case True
  from assms True obtain u1 tr1 where r1:
    "run_range proj [new_schedule_index tp..<length proj] (design tp) = (u1, tr1, None)"
    by (cases "run_range proj [new_schedule_index tp..<length proj] (design tp)")
       (auto simp: actual_method_next_def Let_def split: option.splits)
  from assms True r1 obtain u2 tr2 where r2: "run_range proj [0..<t] u1 = (u2, tr2, None)"
    by (cases "run_range proj [0..<t] u1")
       (auto simp: actual_method_next_def Let_def split: option.splits)
  from assms True r1 r2 obtain u3 where m: "method u2 = (u3, Inr ret)"
    by (cases "method u2")
       (auto simp: actual_method_next_def Let_def split: sum.splits prod.splits option.splits if_splits)
  from assms True r1 r2 m obtain u4 tr3 where r3: "run_range proj [t..<n] u3 = (u4, tr3, None)"
    by (cases "run_range proj [t..<n] u3")
       (auto simp: actual_method_next_def Let_def split: option.splits if_splits)
  from run_range_trace [OF r1] run_range_trace [OF r2] run_range_trace [OF r3] assms True r1 r2 m r3
  show ?thesis
    by (auto simp: actual_method_next_def Let_def cursor_def split: if_splits)
next
  case False
  let ?i = "new_schedule_index tp"
  from assms False obtain u2 tr2 where r2:
    "run_range proj [?i..<t] (design tp) = (u2, tr2, None)"
    by (cases "run_range proj [?i..<t] (design tp)")
       (auto simp: actual_method_next_def Let_def split: option.splits)
  from assms False r2 obtain u3 where m: "method u2 = (u3, Inr ret)"
    by (cases "method u2")
       (auto simp: actual_method_next_def Let_def split: sum.splits prod.splits option.splits if_splits)
  from assms False r2 m obtain u4 tr3 where r3: "run_range proj [max ?i t..<n] u3 = (u4, tr3, None)"
    by (cases "run_range proj [max ?i t..<n] u3")
       (auto simp: actual_method_next_def Let_def split: option.splits if_splits)
  from run_range_trace [OF r2] run_range_trace [OF r3] assms False r2 m r3
  show ?thesis
    by (auto simp: actual_method_next_def Let_def cursor_def split: if_splits)
qed

lemma window_autotick:
  assumes a_b: "a < b" "b < length schedule" "is_callee (schedule ! b)"
      and ta: "map_next_func schedule a = Inr ta"
      and tb: "map_next_func schedule b = Inr tb"
      and d: "distinct (methodless schedule)"
      and c: "cursor_consistent schedule tp"
      and call1: "actual_method proj ta a method_a tp = (tp1, tr1, Inr ret1)"
      and call2: "actual_method proj tb b method_b tp1 = (tp2, tr2, Inr ret2)"
  shows "tr1 = (if orig_schedule_index tp > a
                then map BlockCall [new_schedule_index tp..<length proj] @ map BlockCall [0..<ta]
                else map BlockCall [new_schedule_index tp..<ta]) @ [MethodCall a]
         \<and> cursor tp1 = (ta, a + 1, if orig_schedule_index tp > a then num_cycles_executed tp + 1
                                      else num_cycles_executed tp)
         \<and> tr2 = map BlockCall [ta..<tb] @ [MethodCall b]
         \<and> cursor tp2 = (tb, b + 1, num_cycles_executed tp1)
         \<and> cursor_consistent schedule tp1 \<and> cursor_consistent schedule tp2"
proof -
  from actual_method_returns [OF call1]
  have w1: "tr1 = (if orig_schedule_index tp > a
                then map BlockCall [new_schedule_index tp..<length proj] @ map BlockCall [0..<ta]
                else map BlockCall [new_schedule_index tp..<ta]) @ [MethodCall a]"
    and n1: "num_cycles_executed tp1 = (if orig_schedule_index tp > a then num_cycles_executed tp + 1
                                      else num_cycles_executed tp)" by simp_all
  from actual_method_consistent [OF call1 ta d c]
  have c1: "new_schedule_index tp1 = ta" "orig_schedule_index tp1 = a + 1"
    and cc1: "cursor_consistent schedule tp1" by auto
  then have nowrap: "\<not> orig_schedule_index tp1 > b" using a_b(1) by simp
  from actual_method_returns [OF call2] nowrap c1
  have w2: "tr2 = map BlockCall [ta..<tb] @ [MethodCall b]"
    and n2: "num_cycles_executed tp2 = num_cycles_executed tp1" by auto
  from actual_method_consistent [OF call2 tb d cc1]
  have c2: "new_schedule_index tp2 = tb" "orig_schedule_index tp2 = b + 1"
    and cc2: "cursor_consistent schedule tp2" by auto
  from w1 n1 c1 w2 n2 c2 cc1 cc2 show ?thesis by (simp add: cursor_def)
qed

lemma window_segment:
  assumes a_b: "a < b" "b < length schedule" "is_callee (schedule ! b)"
      and ta: "map_next_func schedule a = Inr ta"
      and tb: "map_next_func schedule b = Inr tb"
      and d: "distinct (methodless schedule)"
  shows "map ((!) (methodless schedule)) [ta..<tb]
              = methodless (take (b - (a + 1)) (drop (a + 1) schedule))"
proof -
  from map_next_func_eq [OF ta d] have taeq: "ta = length (methodless (take (a + 1) schedule))" .
  from map_next_func_eq [OF tb d] methodless_take_Suc_callee [OF a_b(2) a_b(3)]
  have tbeq: "tb = length (methodless (take b schedule))" by simp
  have "a + 1 \<le> b" using a_b(1) by simp
  from methodless_segment [OF this, of schedule] a_b(2) taeq tbeq
  show ?thesis by simp
qed

lemma window_next:
  assumes a_b: "a < b" "b < length schedule" "is_callee (schedule ! b)"
      and ta: "map_next_func schedule a = Inr ta"
      and tb: "map_next_func schedule b = Inr tb"
      and d: "distinct (methodless schedule)"
      and c: "cursor_consistent schedule tp"
      and len: "length proj = length (methodless schedule)"
      and na: "map_next_func_of_next_method schedule a = Inr na"
      and nb: "map_next_func_of_next_method schedule b = Inr nb"
      and call1: "actual_method_next proj ta na a (find_next_method schedule (a + 1)) method_a tp
                    = (tp1, tr1, Inr ret1)"
      and call2: "actual_method_next proj tb nb b (find_next_method schedule (b + 1)) method_b tp1
                    = (tp2, tr2, Inr ret2)"
  shows "tr1 = (if orig_schedule_index tp > a
                then map BlockCall [new_schedule_index tp..<length proj] @ map BlockCall [0..<ta]
                else map BlockCall [new_schedule_index tp..<ta]) @ [MethodCall a]
               @ map BlockCall [ta..<na]
         \<and> cursor tp1 = (na, find_next_method schedule (a + 1),
                          if orig_schedule_index tp > a then num_cycles_executed tp + 1
                          else num_cycles_executed tp)
         \<and> tr2 = map BlockCall [na..<tb] @ [MethodCall b] @ map BlockCall [tb..<nb]
         \<and> ta \<le> na \<and> na \<le> tb \<and> tb \<le> nb
         \<and> cursor tp2 = (if nb = length proj then (0, 0, num_cycles_executed tp1 + 1)
                          else (nb, find_next_method schedule (b + 1), num_cycles_executed tp1))
         \<and> cursor_consistent schedule tp1 \<and> cursor_consistent schedule tp2"
proof -
  let ?ma = "find_next_method schedule (a + 1)" and ?mb = "find_next_method schedule (b + 1)"
  from map_next_func_eq [OF ta d] have taeq: "ta = length (methodless (take (a + 1) schedule))" .
  from map_next_func_eq [OF tb d] have tbeq1: "tb = length (methodless (take (b + 1) schedule))" .
  with methodless_take_Suc_callee [OF a_b(2) a_b(3)]
  have tbeq: "tb = length (methodless (take b schedule))" by simp
  from next_method_le [OF a_b] have ma: "a + 1 \<le> ?ma" "?ma \<le> b" by auto
  from map_next_func_of_next_method_eq [OF na d] ma(2) a_b(2)
  have naeq: "na = length (methodless (take ?ma schedule))" and nalt: "na < length (methodless schedule)"
    by auto
  from map_next_func_of_next_method_eq [OF nb d]
  have nbeq: "nb = length (methodless (take ?mb schedule))" by simp
  have mb: "b + 1 \<le> ?mb"
    using find_next_method_props [of "b + 1" schedule] a_b(2) by simp
  from methodless_take_mono [OF ma(1), of schedule] taeq naeq have le1: "ta \<le> na" by simp
  from methodless_take_mono [OF ma(2), of schedule] tbeq naeq have le2: "na \<le> tb" by simp
  from methodless_take_mono [OF mb, of schedule] tbeq1 nbeq have le3: "tb \<le> nb" by simp
  have i2: "(if orig_schedule_index tp > a then ta else max (new_schedule_index tp) ta) = ta"
  proof (cases "orig_schedule_index tp > a")
    case True
    then show ?thesis by simp
  next
    case False
    then have "orig_schedule_index tp \<le> a + 1" by simp
    from methodless_take_mono [OF this, of schedule] c taeq
    have "new_schedule_index tp \<le> ta" by (simp add: cursor_consistent_def)
    with False show ?thesis by simp
  qed
  from nalt len have nal: "na \<noteq> length proj" by simp
  from actual_method_next_returns [OF call1] i2 le1 nal
  have w1: "tr1 = (if orig_schedule_index tp > a
                then map BlockCall [new_schedule_index tp..<length proj] @ map BlockCall [0..<ta]
                else map BlockCall [new_schedule_index tp..<ta]) @ [MethodCall a]
               @ map BlockCall [ta..<na]"
    and c1: "cursor tp1 = (na, ?ma, if orig_schedule_index tp > a then num_cycles_executed tp + 1
                          else num_cycles_executed tp)"
    by (simp_all add: max_def)
  from c1 have x1: "new_schedule_index tp1 = na" "orig_schedule_index tp1 = ?ma"
    by (simp_all add: cursor_def)
  with ma(2) have nowrap: "\<not> orig_schedule_index tp1 > b" by simp
  from actual_method_next_returns [OF call2] nowrap x1 le2 le3
  have w2: "tr2 = map BlockCall [na..<tb] @ [MethodCall b] @ map BlockCall [tb..<nb]"
    and c2: "cursor tp2 = (if nb = length proj then (0, 0, num_cycles_executed tp1 + 1)
                          else (nb, ?mb, num_cycles_executed tp1))"
    by (simp_all add: max_def)
  from x1 naeq have cc1: "cursor_consistent schedule tp1" by (simp add: cursor_consistent_def)
  from c2 nbeq have cc2: "cursor_consistent schedule tp2"
    by (simp add: cursor_consistent_def cursor_def methodless_def split: if_splits)
  from w1 c1 w2 le1 le2 le3 c2 cc1 cc2 show ?thesis by simp
qed

lemma map_next_func_le:
  assumes "map_next_func sched i = Inr t"
  shows "i + 1 \<le> length sched"
proof -
  from assms have nf: "find_next_func sched (i + 1) < length sched"
    by (auto simp: map_next_func_def Let_def split: if_splits)
  then show ?thesis
    using find_next_func.simps [of sched "i + 1"] by (auto split: if_splits)
qed

lemma single_autotick:
  assumes ta: "map_next_func schedule a = Inr ta"
      and d: "distinct (methodless schedule)"
      and c: "cursor_consistent schedule tp"
      and call1: "actual_method proj ta a method_a tp = (tp1, tr1, Inr ret1)"
  shows "tr1 = (if orig_schedule_index tp > a
                then map BlockCall [new_schedule_index tp..<length proj] @ map BlockCall [0..<ta]
                else map BlockCall [new_schedule_index tp..<ta]) @ [MethodCall a]
         \<and> cursor tp1 = (ta, a + 1, if orig_schedule_index tp > a then num_cycles_executed tp + 1
                                      else num_cycles_executed tp)
         \<and> cursor_consistent schedule tp1"
proof -
  from actual_method_returns [OF call1]
  have w1: "tr1 = (if orig_schedule_index tp > a
                then map BlockCall [new_schedule_index tp..<length proj] @ map BlockCall [0..<ta]
                else map BlockCall [new_schedule_index tp..<ta]) @ [MethodCall a]"
    and n1: "num_cycles_executed tp1 = (if orig_schedule_index tp > a then num_cycles_executed tp + 1
                                      else num_cycles_executed tp)" by simp_all
  from actual_method_consistent [OF call1 ta d c]
  have c1: "new_schedule_index tp1 = ta" "orig_schedule_index tp1 = a + 1"
    and cc1: "cursor_consistent schedule tp1" by auto
  from w1 n1 c1 cc1 show ?thesis by (simp add: cursor_def)
qed

lemma single_next:
  assumes ta: "map_next_func schedule a = Inr ta"
      and d: "distinct (methodless schedule)"
      and c: "cursor_consistent schedule tp"
      and len: "length proj = length (methodless schedule)"
      and na: "map_next_func_of_next_method schedule a = Inr na"
      and call1: "actual_method_next proj ta na a (find_next_method schedule (a + 1)) method_a tp
                    = (tp1, tr1, Inr ret1)"
  shows "tr1 = (if orig_schedule_index tp > a
                then map BlockCall [new_schedule_index tp..<length proj] @ map BlockCall [0..<ta]
                else map BlockCall [new_schedule_index tp..<ta]) @ [MethodCall a]
               @ map BlockCall [ta..<na]
         \<and> ta \<le> na
         \<and> cursor tp1 =
              (if na = length proj
               then (0, 0, (if orig_schedule_index tp > a then num_cycles_executed tp + 1
                            else num_cycles_executed tp) + 1)
               else (na, find_next_method schedule (a + 1),
                     if orig_schedule_index tp > a then num_cycles_executed tp + 1
                     else num_cycles_executed tp))
         \<and> cursor_consistent schedule tp1"
proof -
  let ?ma = "find_next_method schedule (a + 1)"
  from map_next_func_eq [OF ta d] have taeq: "ta = length (methodless (take (a + 1) schedule))" .
  from map_next_func_le [OF ta] have le: "a + 1 \<le> length schedule" .
  from find_next_method_props [OF le] have ma: "a + 1 \<le> ?ma" by simp
  from map_next_func_of_next_method_eq [OF na d]
  have naeq: "na = length (methodless (take ?ma schedule))" by simp
  from methodless_take_mono [OF ma, of schedule] taeq naeq have le1: "ta \<le> na" by simp
  have i2: "(if orig_schedule_index tp > a then ta else max (new_schedule_index tp) ta) = ta"
  proof (cases "orig_schedule_index tp > a")
    case True
    then show ?thesis by simp
  next
    case False
    then have "orig_schedule_index tp \<le> a + 1" by simp
    from methodless_take_mono [OF this, of schedule] c taeq
    have "new_schedule_index tp \<le> ta" by (simp add: cursor_consistent_def)
    with False show ?thesis by simp
  qed
  from actual_method_next_returns [OF call1] i2 le1
  have w1: "tr1 = (if orig_schedule_index tp > a
                then map BlockCall [new_schedule_index tp..<length proj] @ map BlockCall [0..<ta]
                else map BlockCall [new_schedule_index tp..<ta]) @ [MethodCall a]
               @ map BlockCall [ta..<na]"
    and c1: "cursor tp1 =
              (if na = length proj
               then (0, 0, (if orig_schedule_index tp > a then num_cycles_executed tp + 1
                            else num_cycles_executed tp) + 1)
               else (na, ?ma,
                     if orig_schedule_index tp > a then num_cycles_executed tp + 1
                     else num_cycles_executed tp))"
    by (simp_all add: max_def)
  from c1 naeq have cc1: "cursor_consistent schedule tp1"
    by (simp add: cursor_consistent_def cursor_def methodless_def split: if_splits)
  from w1 le1 c1 cc1 show ?thesis by simp
qed

text \<open>
  C3, as the code has it.  Let the entries of the schedule that are not callee ports
  be pairwise distinct, let \<open>ta\<close> be the target (\<open>my_idx_new\<close>) of the wrapper for index
  \<open>a\<close>, and let the cursor agree with the schedule (its projected index is the number of
  projected blocks before its original index: so it is after elaboration, and again
  after every call that returns).

  \<^item> In \<open>passes/autotick/OpenLoopCLPass.py\<close> a call of the wrapper that returns has run
    the projected blocks from the cursor up to, not including, \<open>ta\<close>, then the method,
    and nothing after it; when the slot of \<open>a\<close> has passed (\<open>orig_schedule_index > a\<close>)
    it has first run the projection from the cursor to its end, counted a cycle, and
    started again from 0.  The cursor is then \<open>(ta, a + 1)\<close>.  A call that follows, of
    the wrapper for a callee port at a later index \<open>b\<close> with target \<open>tb\<close>, runs exactly
    the blocks \<open>ta, ..., tb - 1\<close>, then the method, leaves the cursor at \<open>(tb, b + 1)\<close>
    and counts no cycle.

  \<^item> In \<open>passes/OpenLoopCLPass.py\<close> the call runs the same blocks before the method
    and, after it, the blocks \<open>ta, ..., na - 1\<close> up to the slot of the next callee
    port; the cursor is then \<open>(na, next_method)\<close>, or reset with one more cycle
    counted when \<open>na\<close> is the end of the projection.  A call that follows for a later
    port \<open>b\<close> runs the blocks \<open>na, ..., tb - 1\<close>, the method, and the blocks
    \<open>tb, ..., nb - 1\<close>, with the same rule for the cursor.

  In both, the blocks run between the two method bodies are \<open>ta, ..., tb - 1\<close>, once
  each and in order: the entries of the schedule strictly between \<open>a\<close> and \<open>b\<close> that are
  not callee ports.
\<close>

theorem method_call_window:
  assumes ta: "map_next_func schedule a = Inr ta"
      and d: "distinct (methodless schedule)"
      and c: "cursor_consistent schedule tp"
  shows "(\<forall>tp1 tr1 ret1.
            actual_method proj ta a method_a tp = (tp1, tr1, Inr ret1) \<longrightarrow>
              tr1 = (if orig_schedule_index tp > a
                     then map BlockCall [new_schedule_index tp..<length proj] @ map BlockCall [0..<ta]
                     else map BlockCall [new_schedule_index tp..<ta]) @ [MethodCall a]
              \<and> cursor tp1 = (ta, a + 1, if orig_schedule_index tp > a
                                           then num_cycles_executed tp + 1
                                           else num_cycles_executed tp)
              \<and> cursor_consistent schedule tp1
              \<and> (\<forall>b tb tp2 tr2 ret2.
                    a < b \<longrightarrow> b < length schedule \<longrightarrow> is_callee (schedule ! b) \<longrightarrow>
                    map_next_func schedule b = Inr tb \<longrightarrow>
                    actual_method proj tb b method_b tp1 = (tp2, tr2, Inr ret2) \<longrightarrow>
                      tr2 = map BlockCall [ta..<tb] @ [MethodCall b]
                      \<and> cursor tp2 = (tb, b + 1, num_cycles_executed tp1)
                      \<and> cursor_consistent schedule tp2
                      \<and> map ((!) (methodless schedule)) [ta..<tb]
                           = methodless (take (b - (a + 1)) (drop (a + 1) schedule))))
         \<and> (\<forall>na tp1 tr1 ret1.
            length proj = length (methodless schedule) \<longrightarrow>
            map_next_func_of_next_method schedule a = Inr na \<longrightarrow>
            actual_method_next proj ta na a (find_next_method schedule (a + 1)) method_a tp
              = (tp1, tr1, Inr ret1) \<longrightarrow>
              tr1 = (if orig_schedule_index tp > a
                     then map BlockCall [new_schedule_index tp..<length proj] @ map BlockCall [0..<ta]
                     else map BlockCall [new_schedule_index tp..<ta]) @ [MethodCall a]
                    @ map BlockCall [ta..<na]
              \<and> ta \<le> na
              \<and> cursor tp1 =
                   (if na = length proj
                    then (0, 0, (if orig_schedule_index tp > a then num_cycles_executed tp + 1
                                 else num_cycles_executed tp) + 1)
                    else (na, find_next_method schedule (a + 1),
                          if orig_schedule_index tp > a then num_cycles_executed tp + 1
                          else num_cycles_executed tp))
              \<and> cursor_consistent schedule tp1
              \<and> (\<forall>b tb nb tp2 tr2 ret2.
                    a < b \<longrightarrow> b < length schedule \<longrightarrow> is_callee (schedule ! b) \<longrightarrow>
                    map_next_func schedule b = Inr tb \<longrightarrow>
                    map_next_func_of_next_method schedule b = Inr nb \<longrightarrow>
                    actual_method_next proj tb nb b (find_next_method schedule (b + 1)) method_b tp1
                      = (tp2, tr2, Inr ret2) \<longrightarrow>
                      na < length proj \<and> na \<le> tb \<and> tb \<le> nb
                      \<and> tr2 = map BlockCall [na..<tb] @ [MethodCall b] @ map BlockCall [tb..<nb]
                      \<and> cursor tp2 = (if nb = length proj then (0, 0, num_cycles_executed tp1 + 1)
                                       else (nb, find_next_method schedule (b + 1),
                                             num_cycles_executed tp1))
                      \<and> cursor_consistent schedule tp2
                      \<and> map ((!) (methodless schedule)) [ta..<tb]
                           = methodless (take (b - (a + 1)) (drop (a + 1) schedule))))
         \<and> cursor_consistent schedule (elaborated u)"
proof (intro conjI allI impI)
  fix tp1 tr1 ret1
  assume call1: "actual_method proj ta a method_a tp = (tp1, tr1, Inr ret1)"
  note s = single_autotick [OF ta d c call1]
  from s show "tr1 = (if orig_schedule_index tp > a
                     then map BlockCall [new_schedule_index tp..<length proj] @ map BlockCall [0..<ta]
                     else map BlockCall [new_schedule_index tp..<ta]) @ [MethodCall a]"
    by (rule conjunct1)
  from s show "cursor tp1 = (ta, a + 1, if orig_schedule_index tp > a
                                           then num_cycles_executed tp + 1
                                           else num_cycles_executed tp)"
    by (elim conjE)
  from s show "cursor_consistent schedule tp1" by (elim conjE)
  fix b tb tp2 tr2 ret2
  assume a_b: "a < b" "b < length schedule" "is_callee (schedule ! b)"
     and tb: "map_next_func schedule b = Inr tb"
     and call2: "actual_method proj tb b method_b tp1 = (tp2, tr2, Inr ret2)"
  note w = window_autotick [OF a_b ta tb d c call1 call2]
  from w show "tr2 = map BlockCall [ta..<tb] @ [MethodCall b]" by (elim conjE)
  from w show "cursor tp2 = (tb, b + 1, num_cycles_executed tp1)" by (elim conjE)
  from w show "cursor_consistent schedule tp2" by (elim conjE)
  show "map ((!) (methodless schedule)) [ta..<tb]
              = methodless (take (b - (a + 1)) (drop (a + 1) schedule))"
    by (rule window_segment [OF a_b ta tb d])
next
  fix na tp1 tr1 ret1
  assume len: "length proj = length (methodless schedule)"
     and na: "map_next_func_of_next_method schedule a = Inr na"
     and call1: "actual_method_next proj ta na a (find_next_method schedule (a + 1)) method_a tp
                    = (tp1, tr1, Inr ret1)"
  note s = single_next [OF ta d c len na call1]
  from s show "tr1 = (if orig_schedule_index tp > a
                     then map BlockCall [new_schedule_index tp..<length proj] @ map BlockCall [0..<ta]
                     else map BlockCall [new_schedule_index tp..<ta]) @ [MethodCall a]
                    @ map BlockCall [ta..<na]"
    by (rule conjunct1)
  from s show "ta \<le> na" by (elim conjE)
  from s show "cursor tp1 =
                   (if na = length proj
                    then (0, 0, (if orig_schedule_index tp > a then num_cycles_executed tp + 1
                                 else num_cycles_executed tp) + 1)
                    else (na, find_next_method schedule (a + 1),
                          if orig_schedule_index tp > a then num_cycles_executed tp + 1
                          else num_cycles_executed tp))"
    by (elim conjE)
  from s show "cursor_consistent schedule tp1" by (elim conjE)
  fix b tb nb tp2 tr2 ret2
  assume a_b: "a < b" "b < length schedule" "is_callee (schedule ! b)"
     and tb: "map_next_func schedule b = Inr tb"
     and nb: "map_next_func_of_next_method schedule b = Inr nb"
     and call2: "actual_method_next proj tb nb b (find_next_method schedule (b + 1)) method_b tp1
                    = (tp2, tr2, Inr ret2)"
  note w = window_next [OF a_b ta tb d c len na nb call1 call2]
  from next_method_le [OF a_b] a_b(2) map_next_func_of_next_method_eq [OF na d] len
  show "na < length proj" by simp
  from w show "na \<le> tb" by (elim conjE)
  from w show "tb \<le> nb" by (elim conjE)
  from w show "tr2 = map BlockCall [na..<tb] @ [MethodCall b] @ map BlockCall [tb..<nb]"
    by (elim conjE)
  from w show "cursor tp2 = (if nb = length proj then (0, 0, num_cycles_executed tp1 + 1)
                                       else (nb, find_next_method schedule (b + 1),
                                             num_cycles_executed tp1))"
    by (elim conjE)
  from w show "cursor_consistent schedule tp2" by (elim conjE)
  show "map ((!) (methodless schedule)) [ta..<tb]
              = methodless (take (b - (a + 1)) (drop (a + 1) schedule))"
    by (rule window_segment [OF a_b ta tb d])
next
  show "cursor_consistent schedule (elaborated u)"
    by (simp add: cursor_consistent_def elaborated_def methodless_def)
qed

text \<open>A schedule with ports at the indices 2 and 4, over the four blocks of S4.\<close>

lemma two_port_targets:
  "map_next_func two_port_schedule 2 = Inr 2" "map_next_func two_port_schedule 4 = Inr 3"
  by (simp_all add: map_next_func_def two_port_schedule_def find_next_func.simps methodless_def
        mapping_def)

lemma two_port_call1:
  "actual_method S4_projection 2 2 S4_method (elaborated [])
     = (\<lparr>design = [0, 1, 9], new_schedule_index = 2, orig_schedule_index = 3,
          num_cycles_executed = 0\<rparr>,
        [BlockCall 0, BlockCall 1, MethodCall 2], Inr ())"
  by (simp add: actual_method_def elaborated_def S4_projection_def S4_method_def upt_rec)

lemma two_port_call2:
  "actual_method S4_projection 3 4 S4_method S5_root
     = (\<lparr>design = [0, 1, 9, 2, 9], new_schedule_index = 3, orig_schedule_index = 5,
          num_cycles_executed = 0\<rparr>,
        [BlockCall 2, MethodCall 4], Inr ())"
  by (simp add: actual_method_def S5_root_def S4_projection_def S4_method_def upt_rec)

lemma two_port_next_targets:
  "find_next_method two_port_schedule 3 = 4" "find_next_method two_port_schedule 5 = 6"
  "map_next_func_of_next_method two_port_schedule 2 = Inr 3"
  "map_next_func_of_next_method two_port_schedule 4 = Inr 4"
  by (simp_all add: map_next_func_of_next_method_def two_port_schedule_def find_next_func.simps
        find_next_method.simps methodless_def mapping_def)

lemma two_port_next_call1:
  "actual_method_next S4_projection 2 3 2 4 S4_method (elaborated [])
     = (\<lparr>design = [0, 1, 9, 2], new_schedule_index = 3, orig_schedule_index = 4,
          num_cycles_executed = 0\<rparr>,
        [BlockCall 0, BlockCall 1, MethodCall 2, BlockCall 2], Inr ())"
  by (simp add: actual_method_next_def elaborated_def S4_projection_def S4_method_def upt_rec)

lemma two_port_next_call2:
  "actual_method_next S4_projection 3 4 4 6 S4_method
       \<lparr>design = [0, 1, 9, 2], new_schedule_index = 3, orig_schedule_index = 4,
          num_cycles_executed = 0\<rparr>
     = (\<lparr>design = [0, 1, 9, 2, 9, 3], new_schedule_index = 0, orig_schedule_index = 0,
          num_cycles_executed = 1\<rparr>,
        [MethodCall 4, BlockCall 3], Inr ())"
  by (simp add: actual_method_next_def S4_projection_def S4_method_def upt_rec)

theorem method_call_window_witness:
  "actual_method S4_projection 2 2 S4_method (elaborated [])
     = (S5_root, [BlockCall 0, BlockCall 1, MethodCall 2], Inr ())
   \<and> fst (snd (actual_method S4_projection 3 4 S4_method S5_root)) = [BlockCall 2, MethodCall 4]
   \<and> cursor (fst (actual_method S4_projection 3 4 S4_method S5_root)) = (3, 5, 0)
   \<and> fst (snd (actual_method_next S4_projection 2 3 2 4 S4_method (elaborated [])))
        = [BlockCall 0, BlockCall 1, MethodCall 2, BlockCall 2]
   \<and> fst (snd (actual_method_next S4_projection 3 4 4 6 S4_method
                   (fst (actual_method_next S4_projection 2 3 2 4 S4_method (elaborated [])))))
        = [MethodCall 4, BlockCall 3]
   \<and> cursor (fst (actual_method_next S4_projection 3 4 4 6 S4_method
                   (fst (actual_method_next S4_projection 2 3 2 4 S4_method (elaborated [])))))
        = (0, 0, 1)
   \<and> map ((!) (methodless two_port_schedule)) [2..<3] = [Callable (Func 2)]"
proof -
  have c: "cursor_consistent two_port_schedule (elaborated ([] :: nat list))"
    by (simp add: cursor_consistent_def elaborated_def methodless_def)
  have d: "distinct (methodless two_port_schedule)"
    by (simp add: methodless_def two_port_schedule_def)
  have b: "(2::nat) < 4" "4 < length two_port_schedule" "is_callee (two_port_schedule ! 4)"
    by (simp_all add: two_port_schedule_def)
  have len: "length S4_projection = length (methodless two_port_schedule)"
    by (simp add: S4_projection_def methodless_def two_port_schedule_def)
  have c1: "actual_method S4_projection 2 2 S4_method (elaborated [])
     = (S5_root, [BlockCall 0, BlockCall 1, MethodCall 2], Inr ())"
    by (simp add: two_port_call1 S5_root_def)
  have c2: "actual_method S4_projection 3 4 S4_method S5_root
     = (\<lparr>design = [0, 1, 9, 2, 9], new_schedule_index = 3, orig_schedule_index = 5,
          num_cycles_executed = 0\<rparr>,
        [BlockCall 2, MethodCall 4], Inr ())"
    by (rule two_port_call2)
  have n1: "actual_method_next S4_projection 2 3 2 (find_next_method two_port_schedule (2 + 1))
              S4_method (elaborated [])
     = (\<lparr>design = [0, 1, 9, 2], new_schedule_index = 3, orig_schedule_index = 4,
          num_cycles_executed = 0\<rparr>,
        [BlockCall 0, BlockCall 1, MethodCall 2, BlockCall 2], Inr ())"
    using two_port_next_call1 by (simp add: two_port_next_targets)
  have n2: "actual_method_next S4_projection 3 4 4 (find_next_method two_port_schedule (4 + 1))
              S4_method
              \<lparr>design = [0, 1, 9, 2], new_schedule_index = 3, orig_schedule_index = 4,
                num_cycles_executed = 0\<rparr>
     = (\<lparr>design = [0, 1, 9, 2, 9, 3], new_schedule_index = 0, orig_schedule_index = 0,
          num_cycles_executed = 1\<rparr>,
        [MethodCall 4, BlockCall 3], Inr ())"
    using two_port_next_call2 by (simp add: two_port_next_targets)
  note w = method_call_window [OF two_port_targets(1) d c, of S4_projection S4_method S4_method]
  note wa = w [THEN conjunct1, rule_format, OF c1]
  note wa2 = wa [THEN conjunct2, THEN conjunct2, THEN conjunct2, rule_format,
                 OF b two_port_targets(2) c2]
  note wb = w [THEN conjunct2, THEN conjunct1, rule_format, OF len two_port_next_targets(3) n1]
  note wb2 = wb [THEN conjunct2, THEN conjunct2, THEN conjunct2, THEN conjunct2, rule_format,
                 OF b two_port_targets(2) two_port_next_targets(4) n2]
  from wa2 have "cursor (fst (actual_method S4_projection 3 4 S4_method S5_root)) = (3, 5, 0)"
    using c2 by (simp add: S5_root_def)
  moreover have e2: "fst (actual_method_next S4_projection 3 4 4 6 S4_method
                   (fst (actual_method_next S4_projection 2 3 2 4 S4_method (elaborated []))))
        = \<lparr>design = [0, 1, 9, 2, 9, 3], new_schedule_index = 0, orig_schedule_index = 0,
            num_cycles_executed = 1\<rparr>"
    by (simp only: two_port_next_call1 fst_conv two_port_next_call2)
  moreover from wb2 have "cursor \<lparr>design = [0, 1, 9, 2, 9, 3 :: nat], new_schedule_index = 0,
                                  orig_schedule_index = 0, num_cycles_executed = 1\<rparr> = (0, 0, 1)"
    by (simp add: S4_projection_def)
  moreover have "fst (snd (actual_method_next S4_projection 2 3 2 4 S4_method (elaborated [])))
        = [BlockCall 0, BlockCall 1, MethodCall 2, BlockCall 2]"
    by (simp only: two_port_next_call1 fst_conv snd_conv)
  moreover have "fst (snd (actual_method_next S4_projection 3 4 4 6 S4_method
                   (fst (actual_method_next S4_projection 2 3 2 4 S4_method (elaborated [])))))
        = [MethodCall 4, BlockCall 3]"
    by (simp only: two_port_next_call1 fst_conv snd_conv two_port_next_call2)
  moreover from wa2 have "map ((!) (methodless two_port_schedule)) [2..<3] = [Callable (Func 2)]"
    by (simp add: two_port_schedule_def methodless_def)
  moreover have "fst (snd (actual_method S4_projection 3 4 S4_method S5_root))
                   = [BlockCall 2, MethodCall 4]"
    by (simp only: c2 fst_conv snd_conv)
  ultimately show ?thesis
    using c1 by (simp only: simp_thms)
qed

text \<open>
  The window of C3 as stated, from the cursor up to the target and nothing after the
  method, fails in both passes: in scenario S5, with the cursor at \<open>(2, 3)\<close>, the wrapper
  of the autotick pass for the method at index 2 wraps around; and the wrapper of
  \<open>passes/OpenLoopCLPass.py\<close> runs \<open>b2\<close> after the method.
\<close>

theorem method_call_window_counterexample:
  "fst (snd (actual_method S4_projection 2 2 S4_method S5_root))
     \<noteq> map BlockCall [new_schedule_index S5_root..<2] @ [MethodCall 2]
   \<and> fst (snd (actual_method_next S4_projection 2 3 2 4 S4_method (elaborated [])))
     \<noteq> map BlockCall [new_schedule_index (elaborated ([] :: nat list))..<2] @ [MethodCall 2]"
  by (simp add: actual_method_def actual_method_next_def S5_root_def S4_projection_def
        S4_method_def elaborated_def upt_rec)

section \<open>Properties of the scheduling pass\<close>

subsection \<open>Positions\<close>

lemma position_None_iff: "position xs x = None \<longleftrightarrow> x \<notin> set xs"
  by (induction xs) auto

lemma position_less: "position xs x = Some i \<Longrightarrow> i < length xs \<and> xs ! i = x"
  by (induction xs arbitrary: i) (auto split: if_splits)

lemma position_append_in: "x \<in> set xs \<Longrightarrow> position (xs @ ys) x = position xs x"
  by (induction xs) auto

lemma position_Some_in: "position xs x = Some i \<Longrightarrow> x \<in> set xs"
  using position_None_iff [of xs x] by auto

lemma position_append_new: "x \<notin> set xs \<Longrightarrow> position (xs @ [x]) x = Some (length xs)"
  by (induction xs) auto

lemma precedes_append_old:
  assumes "precedes xs a b"
  shows "precedes (xs @ ys) a b"
proof -
  from assms obtain i j where ij: "position xs a = Some i" "position xs b = Some j" "i < j"
    by (auto simp: precedes_def split: option.splits)
  then have "a \<in> set xs" "b \<in> set xs" by (auto dest: position_Some_in)
  with ij show ?thesis by (simp add: precedes_def position_append_in)
qed

lemma precedes_append_new:
  assumes "a \<in> set xs" and "m \<notin> set xs"
  shows "precedes (xs @ [m]) a m"
proof -
  from assms(1) obtain i where i: "position xs a = Some i"
    by (cases "position xs a") (auto simp: position_None_iff)
  then have "i < length xs" by (auto dest: position_less)
  with i assms show ?thesis
    by (simp add: precedes_def position_append_in position_append_new)
qed

lemma precedes_in: "precedes xs a b \<Longrightarrow> a \<in> set xs \<and> b \<in> set xs"
  by (auto simp: precedes_def split: option.splits dest: position_Some_in)

lemma drain_result:
  assumes "distinct vs" and "\<forall>v\<in>set vs. kInD st v \<noteq> None"
  shows "\<exists>st'. drain k vs st = Inr st'
           \<and> kInD st' = (\<lambda>b. if b \<in> set vs then map_option (\<lambda>d. d - 1) (kInD st b) else kInD st b)
           \<and> kQ st' = kQ st @ filter (\<lambda>v. kInD st v = Some 1) vs
           \<and> scc_schedule st' = scc_schedule st \<and> ku st' = ku st"
  using assms
proof (induction vs arbitrary: st)
  case Nil
  then show ?case by simp
next
  case (Cons v vs)
  from Cons.prems obtain d where d: "kInD st v = Some d" by auto
  define st1 where "st1 = (if d - 1 = 0
             then st\<lparr>kInD := (kInD st)(v \<mapsto> d - 1), kQ := kQ st @ [v],
                     scc_pred := (scc_pred st)(v \<mapsto> Some k)\<rparr>
             else st\<lparr>kInD := (kInD st)(v \<mapsto> d - 1)\<rparr>)"
  have k1: "kInD st1 = (kInD st)(v \<mapsto> d - 1)" by (simp add: st1_def)
  have q1: "kQ st1 = kQ st @ (if d = 1 then [v] else [])" by (simp add: st1_def)
  have s1: "scc_schedule st1 = scc_schedule st" "ku st1 = ku st" by (simp_all add: st1_def)
  from Cons.prems have dv: "distinct vs" "v \<notin> set vs" by auto
  have "\<forall>w\<in>set vs. kInD st1 w \<noteq> None" using Cons.prems(2) by (simp add: k1)
  from Cons.IH [OF dv(1) this] obtain st' where st':
    "drain k vs st1 = Inr st'"
    "kInD st' = (\<lambda>b. if b \<in> set vs then map_option (\<lambda>d. d - 1) (kInD st1 b) else kInD st1 b)"
    "kQ st' = kQ st1 @ filter (\<lambda>v. kInD st1 v = Some 1) vs"
    "scc_schedule st' = scc_schedule st1" "ku st' = ku st1" by blast
  have f: "filter (\<lambda>w. kInD st1 w = Some 1) vs = filter (\<lambda>w. kInD st w = Some 1) vs"
    using dv(2) by (intro filter_cong) (auto simp: k1)
  have "drain k (v # vs) st = Inr st'" using d st'(1) by (simp add: st1_def)
  moreover have "kInD st' = (\<lambda>b. if b \<in> set (v # vs) then map_option (\<lambda>d. d - 1) (kInD st b) else kInD st b)"
    using dv(2) d by (auto simp: st'(2) k1 fun_eq_iff)
  moreover have "kQ st' = kQ st @ filter (\<lambda>v. kInD st v = Some 1) (v # vs)"
    using d by (simp add: st'(3) q1 f)
  ultimately show ?case using st'(4) st'(5) s1 by simp
qed

lemma pop_first_head: "t m \<Longrightarrow> pop_first t (m # q) = Some (m, q)"
  by simp

lemma preferred_ports: "keys_are_ports mgm \<Longrightarrow> preferred mgm gmm m"
proof -
  assume k: "keys_are_ports mgm"
  have "PyInt m \<notin> dom mgm"
  proof
    assume "PyInt m \<in> dom mgm"
    with k have "isinstance_CalleePort (PyInt m)" unfolding keys_are_ports_def by blast
    then show False by simp
  qed
  then show ?thesis by (auto simp: preferred_def)
qed

lemma finite_unscheduled [simp]: "finite (unscheduled_preds n gnew sched b)"
  by (simp add: unscheduled_preds_def)

lemma unscheduled_preds_append:
  "unscheduled_preds n gnew (sched @ [m]) b = unscheduled_preds n gnew sched b - {m}"
  by (auto simp: unscheduled_preds_def)

lemma kahn_iter_inv:
  assumes inv: "kahn_inv n gnew st" and g: "gnew_ok n gnew" and q: "kQ st = m # q"
      and p: "keys_are_ports mgm" and it: "set_iteration iter"
  shows "\<exists>st'. kahn_iter iter mgm gmm gnew st = Inr st' \<and> kahn_inv n gnew st'"
proof -
  let ?sched = "scc_schedule st"
  from inv q have mn: "m < n" and mq: "m \<notin> set q" and ms: "m \<notin> set ?sched"
    and dq: "distinct q" and ds: "distinct ?sched" and qs: "set q \<inter> set ?sched = {}"
    and qn: "set q \<subseteq> {..<n}" and sn: "set ?sched \<subseteq> {..<n}"
    by (auto simp: kahn_inv_def)
  from g mn obtain s where s: "gnew m = Some s" "distinct s" "set s \<subseteq> {..<n}"
    by (auto simp: gnew_ok_def)
  then have sm: "succs gnew m = s" by (simp add: succs_def)
  from it s(2) have its: "distinct (iter s)" "set (iter s) = set s" by (auto simp: set_iteration_def)
  define st1 where "st1 = st\<lparr>kQ := q, ku := Some m, scc_schedule := ?sched @ [m]\<rparr>"
  have cnt: "\<forall>b<n. kInD st b = Some (int (card (unscheduled_preds n gnew ?sched b)))"
    using inv by (simp add: kahn_inv_def)
  have zero: "\<forall>b<n. (b \<in> set (kQ st) \<union> set ?sched) = (unscheduled_preds n gnew ?sched b = {})"
    using inv by (simp add: kahn_inv_def)
  have topo: "\<forall>a<n. \<forall>b\<in>set (succs gnew a). b \<in> set ?sched \<longrightarrow> precedes ?sched a b"
    using inv by (simp add: kahn_inv_def)
  have "\<forall>v\<in>set (iter s). kInD st1 v \<noteq> None"
    using cnt s(3) its(2) by (auto simp: st1_def)
  from drain_result [OF its(1) this, of m] obtain st' where st':
    "drain m (iter s) st1 = Inr st'"
    "kInD st' = (\<lambda>b. if b \<in> set (iter s) then map_option (\<lambda>d. d - 1) (kInD st1 b) else kInD st1 b)"
    "kQ st' = kQ st1 @ filter (\<lambda>v. kInD st1 v = Some 1) (iter s)"
    "scc_schedule st' = scc_schedule st1" "ku st' = ku st1" by blast
  have run: "kahn_iter iter mgm gmm gnew st = Inr st'"
    using q p s(1) st'(1) by (simp add: kahn_iter_def preferred_ports st1_def)
  have sched': "scc_schedule st' = ?sched @ [m]" by (simp add: st'(4) st1_def)
  have q': "kQ st' = q @ filter (\<lambda>v. kInD st v = Some 1) (iter s)" by (simp add: st'(3) st1_def)
  \<comment> \<open>the counts\<close>
  have mem: "\<And>b. b < n \<Longrightarrow> (m \<in> unscheduled_preds n gnew ?sched b) = (b \<in> set s)"
    using mn ms sm by (auto simp: unscheduled_preds_def)
  have card': "\<And>b. b < n \<Longrightarrow> int (card (unscheduled_preds n gnew (?sched @ [m]) b))
                  = (if b \<in> set s then int (card (unscheduled_preds n gnew ?sched b)) - 1
                     else int (card (unscheduled_preds n gnew ?sched b)))"
  proof -
    fix b assume b: "b < n"
    show "int (card (unscheduled_preds n gnew (?sched @ [m]) b))
                  = (if b \<in> set s then int (card (unscheduled_preds n gnew ?sched b)) - 1
                     else int (card (unscheduled_preds n gnew ?sched b)))"
    proof (cases "b \<in> set s")
      case True
      with mem [OF b] have "m \<in> unscheduled_preds n gnew ?sched b" by simp
      then have "card (unscheduled_preds n gnew ?sched b - {m}) = card (unscheduled_preds n gnew ?sched b) - 1"
        and "card (unscheduled_preds n gnew ?sched b) > 0"
        by (auto simp: card_gt_0_iff)
      with True show ?thesis by (simp add: unscheduled_preds_append)
    next
      case False
      with mem [OF b] have "m \<notin> unscheduled_preds n gnew ?sched b" by simp
      with False show ?thesis by (simp add: unscheduled_preds_append)
    qed
  qed
  have c1: "\<forall>b<n. kInD st' b = Some (int (card (unscheduled_preds n gnew (scc_schedule st') b)))"
    using cnt card' by (auto simp: st'(2) sched' its(2) st1_def)
  \<comment> \<open>the frontier\<close>
  have one: "\<And>v. v < n \<Longrightarrow> (kInD st v = Some 1) = (card (unscheduled_preds n gnew ?sched v) = 1)"
    using cnt by auto
  have newq: "set (filter (\<lambda>v. kInD st v = Some 1) (iter s))
                = {v. v \<in> set s \<and> card (unscheduled_preds n gnew ?sched v) = 1}"
    using s(3) one by (auto simp: its(2))
  define N where "N = {v. v \<in> set s \<and> card (unscheduled_preds n gnew ?sched v) = 1}"
  have setq': "set (kQ st') = set q \<union> N" using newq by (simp add: q' N_def)
  have sets': "set (scc_schedule st') = insert m (set ?sched)" by (simp add: sched')
  have c2: "\<forall>b<n. (b \<in> set (kQ st') \<union> set (scc_schedule st'))
                 = (unscheduled_preds n gnew (scc_schedule st') b = {})"
  proof (intro allI impI)
    fix b assume b: "b < n"
    have z: "(b \<in> set (m # q) \<union> set ?sched) = (unscheduled_preds n gnew ?sched b = {})"
      using zero b q by simp
    have e: "(unscheduled_preds n gnew (?sched @ [m]) b = {})
              = (card (unscheduled_preds n gnew (?sched @ [m]) b) = 0)" by simp
    show "(b \<in> set (kQ st') \<union> set (scc_schedule st'))
                 = (unscheduled_preds n gnew (scc_schedule st') b = {})"
    proof (cases "b \<in> set s")
      case True
      with mem [OF b] have mi: "m \<in> unscheduled_preds n gnew ?sched b" by simp
      then have ne: "unscheduled_preds n gnew ?sched b \<noteq> {}" by auto
      with z have nb: "b \<notin> set (m # q) \<union> set ?sched" by simp
      from mi have pos: "card (unscheduled_preds n gnew ?sched b) > 0" by (auto simp: card_gt_0_iff)
      have "(card (unscheduled_preds n gnew (?sched @ [m]) b) = 0)
              = (card (unscheduled_preds n gnew ?sched b) = 1)"
        using card' [OF b] True pos by auto
      with e have "(unscheduled_preds n gnew (?sched @ [m]) b = {}) = (b \<in> N)"
        using True by (simp add: N_def)
      moreover have "(b \<in> set (kQ st') \<union> set (scc_schedule st')) = (b \<in> N)"
        using nb by (auto simp: setq' sets')
      ultimately show ?thesis by (simp add: sched')
    next
      case False
      with mem [OF b] have "m \<notin> unscheduled_preds n gnew ?sched b" by simp
      then have "unscheduled_preds n gnew (?sched @ [m]) b = unscheduled_preds n gnew ?sched b"
        by (simp add: unscheduled_preds_append)
      moreover have "(b \<in> set (kQ st') \<union> set (scc_schedule st')) = (b \<in> set (m # q) \<union> set ?sched)"
        using False by (auto simp: setq' sets' N_def)
      ultimately show ?thesis using z by (simp add: sched')
    qed
  qed
  \<comment> \<open>once each\<close>
  have fr: "\<And>v. v \<in> set (filter (\<lambda>v. kInD st v = Some 1) (iter s)) \<Longrightarrow>
               v \<notin> set (m # q) \<union> set ?sched \<and> v < n"
  proof -
    fix v assume "v \<in> set (filter (\<lambda>v. kInD st v = Some 1) (iter s))"
    with newq have v: "v \<in> set s" "card (unscheduled_preds n gnew ?sched v) = 1" by auto
    with s(3) have vn: "v < n" by auto
    from v(2) have "unscheduled_preds n gnew ?sched v \<noteq> {}" by auto
    with zero vn q show "v \<notin> set (m # q) \<union> set ?sched \<and> v < n" by simp
  qed
  have c3: "distinct (scc_schedule st' @ kQ st')"
    using ds dq mq ms qs fr its(1) by (auto simp: sched' q')
  have c4: "set (kQ st') \<subseteq> {..<n} \<and> set (scc_schedule st') \<subseteq> {..<n}"
    using qn sn mn fr by (auto simp: sched' q')
  \<comment> \<open>topological\<close>
  have "(m \<in> set (kQ st) \<union> set ?sched) = (unscheduled_preds n gnew ?sched m = {})"
    using zero mn by blast
  then have mz: "unscheduled_preds n gnew ?sched m = {}" using q by simp
  have c5: "\<forall>a<n. \<forall>b\<in>set (succs gnew a).
            b \<in> set (scc_schedule st') \<longrightarrow> precedes (scc_schedule st') a b"
  proof (intro allI impI ballI)
    fix a b assume a: "a < n" and b: "b \<in> set (succs gnew a)" and bs: "b \<in> set (scc_schedule st')"
    show "precedes (scc_schedule st') a b"
    proof (cases "b \<in> set ?sched")
      case True
      with topo a b have "precedes ?sched a b" by blast
      then show ?thesis by (simp add: sched' precedes_append_old)
    next
      case False
      with bs have bm: "b = m" by (simp add: sched')
      with mz a b have "a \<in> set ?sched" by (auto simp: unscheduled_preds_def)
      with ms bm show ?thesis by (simp add: sched' precedes_append_new)
    qed
  qed
  from c1 c2 c3 c4 c5 have "kahn_inv n gnew st'" by (simp add: kahn_inv_def)
  with run show ?thesis by blast
qed


lemma kahn_loop_inv:
  assumes "kahn_inv n gnew st" and "gnew_ok n gnew" and "keys_are_ports mgm" and "set_iteration iter"
      and "kahn_loop fuel iter mgm gmm gnew st = Some (Inr st')"
  shows "kahn_inv n gnew st' \<and> kQ st' = []"
  using assms
proof (induction fuel arbitrary: st)
  case 0
  then show ?case by (auto split: if_splits)
next
  case (Suc fuel)
  show ?case
  proof (cases "kQ st")
    case Nil
    with Suc.prems show ?thesis by simp
  next
    case (Cons m q)
    from kahn_iter_inv [OF Suc.prems(1) Suc.prems(2) Cons Suc.prems(3) Suc.prems(4), of gmm]
    obtain st1 where st1: "kahn_iter iter mgm gmm gnew st = Inr st1" "kahn_inv n gnew st1" by blast
    with Suc.prems(5) Cons have "kahn_loop fuel iter mgm gmm gnew st1 = Some (Inr st')" by simp
    from Suc.IH [OF st1(2) Suc.prems(2) Suc.prems(3) Suc.prems(4) this] show ?thesis .
  qed
qed

lemma gnew_ok_Some:
  assumes "gnew_ok n gnew" and "a < n" and "gnew a = Some s"
  shows "distinct s \<and> set s \<subseteq> {..<n}"
proof -
  from assms(1) assms(2) obtain s' where "gnew a = Some s'" "distinct s'" "set s' \<subseteq> {..<n}"
    unfolding gnew_ok_def by blast
  with assms(3) show ?thesis by simp
qed

lemma gnew_ok_succs:
  assumes "gnew_ok n gnew" and "a < n" and "b \<in> set (succs gnew a)"
  shows "b < n"
proof -
  from assms(1) assms(2) obtain s where s: "gnew a = Some s" "set s \<subseteq> {..<n}"
    unfolding gnew_ok_def by blast
  with assms(3) show ?thesis by (auto simp: succs_def)
qed

lemma succs_upd:
  "succs (gnew(a \<mapsto> s)) x = (if x = a then s else succs gnew x)"
  by (simp add: succs_def)

lemma condense_ok:
  assumes "cond_ok n c" and "condense vscc es c = Inr c'"
  shows "cond_ok n c'
         \<and> (\<forall>a. set (succs (G_new c) a) \<subseteq> set (succs (G_new c') a))
         \<and> (\<forall>(x, y)\<in>set es. \<exists>a b. vscc x = Some a \<and> vscc y = Some b
                \<and> (a \<noteq> b \<longrightarrow> a < n \<and> b \<in> set (succs (G_new c') a)))"
  using assms
proof (induction es arbitrary: c)
  case Nil
  then show ?case by simp
next
  case (Cons e es)
  obtain x y where e: "e = (x, y)" by (cases e)
  from Cons.prems(2) e obtain a b where ab: "vscc x = Some a" "vscc y = Some b"
    by (auto split: option.splits)
  show ?case
  proof (cases "a \<noteq> b")
    case False
    with Cons.prems(2) e ab have r: "condense vscc es c = Inr c'" by simp
    from Cons.IH [OF Cons.prems(1) r] e ab False show ?thesis by auto
  next
    case True
    with Cons.prems(2) e ab obtain s where s: "G_new c a = Some s"
      by (auto split: option.splits)
    have an: "a < n"
    proof (rule ccontr)
      assume "\<not> a < n"
      with Cons.prems(1) have "G_new c a = None" by (simp add: cond_ok_def)
      with s show False by simp
    qed
    show ?thesis
    proof (cases "b \<in> set s")
      case bs: True
      with Cons.prems(2) e ab True s have r: "condense vscc es c = Inr c'" by simp
      from Cons.IH [OF Cons.prems(1) r]
      have ih: "cond_ok n c'" "\<forall>a. set (succs (G_new c) a) \<subseteq> set (succs (G_new c') a)"
        "\<forall>(x, y)\<in>set es. \<exists>a b. vscc x = Some a \<and> vscc y = Some b
                \<and> (a \<noteq> b \<longrightarrow> a < n \<and> b \<in> set (succs (G_new c') a))" by auto
      from bs s have "b \<in> set (succs (G_new c) a)" by (simp add: succs_def)
      with ih(2) have "b \<in> set (succs (G_new c') a)" by blast
      with ih e ab an show ?thesis by auto
    next
      case nbs: False
      with Cons.prems(2) e ab True s obtain d where d: "InD c b = Some d"
        by (auto split: option.splits)
      have bn: "b < n"
      proof (rule ccontr)
        assume "\<not> b < n"
        with Cons.prems(1) have "InD c b = None" by (simp add: cond_ok_def)
        with d show False by simp
      qed
      define c1 where "c1 = c\<lparr>InD := (InD c)(b \<mapsto> d + 1), G_new := (G_new c)(a \<mapsto> set_add s b)\<rparr>"
      from Cons.prems(2) e ab True s nbs d have r: "condense vscc es c1 = Inr c'"
        by (simp add: c1_def)
      have g1: "G_new c1 = (G_new c)(a \<mapsto> s @ [b])" using nbs by (simp add: c1_def set_add_def)
      have i1: "InD c1 = (InD c)(b \<mapsto> d + 1)" by (simp add: c1_def)
      from Cons.prems(1) have gok: "gnew_ok n (G_new c)"
        and out: "\<forall>k\<ge>n. InD c k = None \<and> G_new c k = None"
        and cnt: "\<forall>k<n. InD c k = Some (int (card (unscheduled_preds n (G_new c) [] k)))"
        by (auto simp: cond_ok_def)
      from gnew_ok_Some [OF gok an s] have sd: "distinct s" "set s \<subseteq> {..<n}" by auto
      have gok1: "gnew_ok n (G_new c1)"
        using gok sd nbs bn by (auto simp: gnew_ok_def g1)
      have out1: "\<forall>k\<ge>n. InD c1 k = None \<and> G_new c1 k = None"
        using out an bn by (auto simp: g1 i1)
      have sx: "\<And>k. succs (G_new c1) k = (if k = a then s @ [b] else succs (G_new c) k)"
        by (simp add: g1 succs_upd)
      have sa: "succs (G_new c) a = s" using s by (simp add: succs_def)
      have up_b: "unscheduled_preds n (G_new c1) [] b = insert a (unscheduled_preds n (G_new c) [] b)"
        using an by (auto simp: unscheduled_preds_def sx sa)
      have up_o: "\<And>k. k \<noteq> b \<Longrightarrow> unscheduled_preds n (G_new c1) [] k = unscheduled_preds n (G_new c) [] k"
        by (auto simp: unscheduled_preds_def sx sa)
      have anb: "a \<notin> unscheduled_preds n (G_new c) [] b"
        using nbs by (simp add: unscheduled_preds_def sa)
      have db: "d = int (card (unscheduled_preds n (G_new c) [] b))" using cnt bn d by simp
      have cnt1: "\<forall>k<n. InD c1 k = Some (int (card (unscheduled_preds n (G_new c1) [] k)))"
      proof (intro allI impI)
        fix k assume k: "k < n"
        show "InD c1 k = Some (int (card (unscheduled_preds n (G_new c1) [] k)))"
        proof (cases "k = b")
          case True
          then show ?thesis using anb db by (simp add: i1 up_b)
        next
          case False
          then show ?thesis using cnt k by (simp add: i1 up_o)
        qed
      qed
      from gok1 out1 cnt1 have ok1: "cond_ok n c1" by (simp add: cond_ok_def)
      from Cons.IH [OF ok1 r]
      have ih: "cond_ok n c'" "\<forall>k. set (succs (G_new c1) k) \<subseteq> set (succs (G_new c') k)"
        "\<forall>(x, y)\<in>set es. \<exists>a b. vscc x = Some a \<and> vscc y = Some b
                \<and> (a \<noteq> b \<longrightarrow> a < n \<and> b \<in> set (succs (G_new c') a))" by auto
      have mono: "\<forall>k. set (succs (G_new c) k) \<subseteq> set (succs (G_new c') k)"
      proof
        fix k
        have "set (succs (G_new c) k) \<subseteq> set (succs (G_new c1) k)" by (auto simp: sx sa)
        with ih(2) show "set (succs (G_new c) k) \<subseteq> set (succs (G_new c') k)" by blast
      qed
      have "b \<in> set (succs (G_new c1) a)" by (simp add: sx)
      with ih(2) have "b \<in> set (succs (G_new c') a)" by blast
      with ih(1) ih(3) mono e ab an show ?thesis by auto
    qed
  qed
qed

lemma cond_ok_init: "cond_ok n (condensed_init n)"
  by (auto simp: cond_ok_def condensed_init_def gnew_ok_def unscheduled_preds_def succs_def)

lemma kahn_init_inv:
  assumes "cond_ok n c"
  shows "kahn_inv n (G_new c) (kahn_init n c)"
proof -
  from assms have cnt: "\<forall>b<n. InD c b = Some (int (card (unscheduled_preds n (G_new c) [] b)))"
    by (simp add: cond_ok_def)
  have "\<forall>b<n. (b \<in> set (filter (\<lambda>i. InD c i = Some 0) [0..<n]))
                 = (unscheduled_preds n (G_new c) [] b = {})"
    using cnt by auto
  with cnt show ?thesis by (auto simp: kahn_inv_def kahn_init_def Let_def)
qed

lemma full_schedule:
  assumes "distinct xs" and "set xs \<subseteq> {..<n}" and "length xs = n"
  shows "set xs = {..<n}"
proof -
  from assms(1) assms(3) have "card (set xs) = card {..<n}" by (simp add: distinct_card)
  with assms(2) show ?thesis by (intro card_subset_eq) auto
qed

lemma topological_sort_correct:
  assumes run: "topological_sort fuel iter edges mgm gmm n vscc = Some (Inr st)"
      and p: "keys_are_ports mgm" and it: "set_iteration iter"
  shows "distinct (scc_schedule st) \<and> set (scc_schedule st) = {..<n}
         \<and> (\<forall>(x, y)\<in>set edges. \<exists>a b. vscc x = Some a \<and> vscc y = Some b
                \<and> (a \<noteq> b \<longrightarrow> precedes (scc_schedule st) a b))"
proof -
  from run obtain c where c: "condense vscc edges (condensed_init n) = Inr c"
    by (auto simp: topological_sort_def split: sum.splits)
  from run c have k: "kahn_loop fuel iter mgm gmm (G_new c) (kahn_init n c) = Some (Inr st)"
    and len: "length (scc_schedule st) = n"
    by (auto simp: topological_sort_def split: sum.splits option.splits if_splits)
  from condense_ok [OF cond_ok_init c]
  have ok: "cond_ok n c"
    and ed: "\<forall>(x, y)\<in>set edges. \<exists>a b. vscc x = Some a \<and> vscc y = Some b
                \<and> (a \<noteq> b \<longrightarrow> a < n \<and> b \<in> set (succs (G_new c) a))" by auto
  from ok have g: "gnew_ok n (G_new c)" by (simp add: cond_ok_def)
  from kahn_loop_inv [OF kahn_init_inv [OF ok] g p it k]
  have inv: "kahn_inv n (G_new c) st" by simp
  then have d: "distinct (scc_schedule st)" and sub: "set (scc_schedule st) \<subseteq> {..<n}"
    and topo: "\<forall>a<n. \<forall>b\<in>set (succs (G_new c) a).
            b \<in> set (scc_schedule st) \<longrightarrow> precedes (scc_schedule st) a b"
    by (auto simp: kahn_inv_def)
  from full_schedule [OF d sub len] have all: "set (scc_schedule st) = {..<n}" .
  have "\<forall>(x, y)\<in>set edges. \<exists>a b. vscc x = Some a \<and> vscc y = Some b
                \<and> (a \<noteq> b \<longrightarrow> precedes (scc_schedule st) a b)"
  proof (intro ballI, clarify)
    fix x y assume "(x, y) \<in> set edges"
    with ed obtain a b where ab: "vscc x = Some a" "vscc y = Some b"
      "a \<noteq> b \<longrightarrow> a < n \<and> b \<in> set (succs (G_new c) a)" by blast
    have "a \<noteq> b \<longrightarrow> precedes (scc_schedule st) a b"
    proof
      assume "a \<noteq> b"
      with ab(3) have an: "a < n" and bs: "b \<in> set (succs (G_new c) a)" by auto
      from gnew_ok_succs [OF g an bs] have "b < n" .
      with all have "b \<in> set (scc_schedule st)" by simp
      with topo an bs show "precedes (scc_schedule st) a b" by blast
    qed
    with ab show "\<exists>a b. vscc x = Some a \<and> vscc y = Some b
                \<and> (a \<noteq> b \<longrightarrow> precedes (scc_schedule st) a b)" by blast
  qed
  with d all show ?thesis by blast
qed

subsection \<open>The components\<close>

lemma set_set_add [simp]: "set (set_add s x) = insert x (set s)"
  by (auto simp: set_add_def)

lemma bfs_visit_sets:
  "bfs_visit ps (visited, q, scc) = (visited', q', scc') \<Longrightarrow>
     set visited \<subseteq> set visited'
     \<and> set q' = set q \<union> (set visited' - set visited)
     \<and> set scc' = set scc \<union> (set visited' - set visited)"
proof (induction ps arbitrary: visited q scc)
  case Nil
  then show ?case by auto
next
  case (Cons v ps)
  show ?case
  proof (cases "v \<in> set visited")
    case True
    with Cons show ?thesis by simp
  next
    case False
    with Cons.prems have r: "bfs_visit ps (v # visited, q @ [v], set_add scc v) = (visited', q', scc')"
      by simp
    from Cons.IH [OF r] False show ?thesis by auto
  qed
qed

lemma bfs_queue_sets:
  assumes "bfs_queue g k q visited scc vscc = Inr (visited', scc', vscc')"
      and "set q \<subseteq> set scc" and "set scc \<subseteq> set visited"
      and "\<forall>v\<in>set scc - set q. vscc v = Some k"
  shows "set scc \<subseteq> set scc' \<and> set visited \<subseteq> set visited' \<and> set scc' \<subseteq> set visited'
         \<and> (set scc' - set scc) \<inter> set visited = {}
         \<and> (\<forall>v\<in>set scc'. vscc' v = Some k)
         \<and> (\<forall>v. v \<notin> set scc' \<longrightarrow> vscc' v = vscc v)"
  using assms
proof (induction g k q visited scc vscc rule: bfs_queue.induct)
  case (1 g k visited scc vscc)
  then show ?case by (auto simp: bfs_queue.simps)
next
  case (2 g k x q visited scc vscc)
  from "2.prems"(1) obtain ps where ps: "map_of g x = Some ps"
    by (auto simp: bfs_queue.simps split: option.splits)
  obtain v1 q1 s1 where bv: "bfs_visit ps (visited, q, scc) = (v1, q1, s1)"
    by (cases "bfs_visit ps (visited, q, scc)") auto
  from "2.prems"(1) ps bv have r: "bfs_queue g k q1 v1 s1 (vscc(x \<mapsto> k)) = Inr (visited', scc', vscc')"
    by (simp add: bfs_queue.simps)
  from bfs_visit_sets [OF bv]
  have sets: "set visited \<subseteq> set v1" "set q1 = set q \<union> (set v1 - set visited)"
    "set s1 = set scc \<union> (set v1 - set visited)" by auto
  have p1: "set q1 \<subseteq> set s1" using sets "2.prems"(2) by auto
  have p2: "set s1 \<subseteq> set v1" using sets "2.prems"(3) by auto
  have p3: "\<forall>v\<in>set s1 - set q1. (vscc(x \<mapsto> k)) v = Some k"
    using sets "2.prems"(4) by auto
  from "2.IH" [OF ps bv [symmetric] refl r p1 p2 p3]
  have ih: "set s1 \<subseteq> set scc'" "set v1 \<subseteq> set visited'" "set scc' \<subseteq> set visited'"
    "(set scc' - set s1) \<inter> set v1 = {}" "\<forall>v\<in>set scc'. vscc' v = Some k"
    "\<forall>v. v \<notin> set scc' \<longrightarrow> vscc' v = (vscc(x \<mapsto> k)) v" by auto
  have xs: "x \<in> set scc" using "2.prems"(2) by simp
  have a: "set scc \<subseteq> set scc'" using ih(1) sets(3) by auto
  have b: "set visited \<subseteq> set visited'" using ih(2) sets(1) by auto
  have c: "(set scc' - set scc) \<inter> set visited = {}" using ih(4) sets by auto
  have d: "\<forall>v. v \<notin> set scc' \<longrightarrow> vscc' v = vscc v"
    using ih(6) xs a by auto
  from a b ih(3) c ih(5) d show ?case by simp
qed

lemma bfs_all_inv:
  assumes "bfs_all g us visited r = Inr r'" and "sccs_inv visited r"
  shows "\<exists>visited'. sccs_inv visited' r'"
  using assms
proof (induction us arbitrary: visited r)
  case Nil
  then show ?case by auto
next
  case (Cons x us)
  show ?case
  proof (cases "x \<in> set visited")
    case True
    with Cons.prems have "bfs_all g us visited r = Inr r'" by simp
    from Cons.IH [OF this Cons.prems(2)] show ?thesis .
  next
    case False
    let ?k = "length (SCCs r)"
    from False Cons.prems(1) obtain v1 s1 vs1 where
      q: "bfs_queue g ?k [x] (x # visited) [x] (v_SCC r) = Inr (v1, s1, vs1)"
      by (auto split: sum.splits)
    define r1 where "r1 = \<lparr>SCCs = SCCs r @ [s1], v_SCC = vs1\<rparr>"
    from False Cons.prems(1) q have run: "bfs_all g us v1 r1 = Inr r'" by (simp add: r1_def)
    have h: "set [x] \<subseteq> set [x]" "set [x] \<subseteq> set (x # visited)"
      "\<forall>v\<in>set [x] - set [x]. v_SCC r v = Some ?k"
      by simp_all
    note fs = bfs_queue_sets [OF q h]
    from fs have f1: "set [x] \<subseteq> set s1" by (rule conjunct1)
    from fs have f2: "set (x # visited) \<subseteq> set v1" by (elim conjE)
    from fs have f3: "set s1 \<subseteq> set v1" by (elim conjE)
    from fs have f4: "(set s1 - set [x]) \<inter> set (x # visited) = {}" by (elim conjE)
    from fs have f5: "\<forall>v\<in>set s1. vs1 v = Some ?k" by (elim conjE)
    from fs have f6: "\<forall>v. v \<notin> set s1 \<longrightarrow> vs1 v = v_SCC r v" by (elim conjE)
    from Cons.prems(2)
    have i1: "\<forall>v k. v_SCC r v = Some k \<longrightarrow> k < length (SCCs r) \<and> v \<in> set (SCCs r ! k)"
      unfolding sccs_inv_def by (rule conjunct1)
    from Cons.prems(2)
    have i2: "\<forall>k<length (SCCs r). \<forall>v\<in>set (SCCs r ! k). v_SCC r v = Some k \<and> v \<in> set visited"
      unfolding sccs_inv_def by (rule conjunct2)
    have fresh: "set s1 \<inter> set visited = {}" using f4 False by auto
    have len1: "length (SCCs r1) = Suc ?k" by (simp add: r1_def)
    have last1: "SCCs r1 ! ?k = s1" by (simp add: r1_def)
    have old1: "\<And>k. k < ?k \<Longrightarrow> SCCs r1 ! k = SCCs r ! k" by (simp add: r1_def nth_append)
    have vs1: "v_SCC r1 = vs1" by (simp add: r1_def)
    have A: "\<And>v k. v_SCC r1 v = Some k \<Longrightarrow> k < length (SCCs r1) \<and> v \<in> set (SCCs r1 ! k)"
    proof -
      fix v k assume vk: "v_SCC r1 v = Some k"
      show "k < length (SCCs r1) \<and> v \<in> set (SCCs r1 ! k)"
      proof (cases "v \<in> set s1")
        case True
        with f5 have "vs1 v = Some ?k" by blast
        with vk vs1 have "k = ?k" by simp
        with True len1 last1 show ?thesis by simp
      next
        case False
        with f6 have "vs1 v = v_SCC r v" by blast
        with vk vs1 have "v_SCC r v = Some k" by simp
        with i1 have "k < ?k" "v \<in> set (SCCs r ! k)" by blast+
        with len1 old1 show ?thesis by simp
      qed
    qed
    have B: "\<And>k v. k < length (SCCs r1) \<Longrightarrow> v \<in> set (SCCs r1 ! k) \<Longrightarrow>
                 v_SCC r1 v = Some k \<and> v \<in> set v1"
    proof -
      fix k v assume k: "k < length (SCCs r1)" and v: "v \<in> set (SCCs r1 ! k)"
      show "v_SCC r1 v = Some k \<and> v \<in> set v1"
      proof (cases "k < ?k")
        case True
        with v old1 have vin: "v \<in> set (SCCs r ! k)" by simp
        with i2 True have o: "v_SCC r v = Some k" "v \<in> set visited" by blast+
        with fresh have "v \<notin> set s1" by blast
        with f6 have "vs1 v = v_SCC r v" by blast
        with o f2 vs1 show ?thesis by auto
      next
        case False
        with k len1 have kk: "k = ?k" by simp
        with v last1 have "v \<in> set s1" by simp
        with f5 f3 have "vs1 v = Some ?k" "v \<in> set v1" by blast+
        with kk vs1 show ?thesis by simp
      qed
    qed
    have "sccs_inv v1 r1"
      unfolding sccs_inv_def using A B by blast
    from Cons.IH [OF run this] show ?thesis .
  qed
qed

lemma kosaraju_partition:
  assumes "kosaraju sh g = Inr r"
  shows "(\<forall>v k. v_SCC r v = Some k \<longrightarrow> k < length (SCCs r) \<and> v \<in> set (SCCs r ! k))
         \<and> (\<forall>k<length (SCCs r). \<forall>v\<in>set (SCCs r ! k). v_SCC r v = Some k)"
proof -
  from assms obtain visited PO where
    "bfs_all (G_T g) (rev PO) [] \<lparr>SCCs = [], v_SCC = Map.empty\<rparr> = Inr r"
    by (auto simp: kosaraju_def Let_def split: sum.splits)
  moreover have "sccs_inv [] \<lparr>SCCs = [], v_SCC = Map.empty\<rparr>" by (simp add: sccs_inv_def)
  ultimately obtain visited' where "sccs_inv visited' r" using bfs_all_inv by blast
  then show ?thesis unfolding sccs_inv_def by blast
qed

subsection \<open>The graph\<close>

lemma distinct_set_add: "distinct s \<Longrightarrow> distinct (set_add s x)"
  by (simp add: set_add_def)

lemma add_callee_ports_keeps:
  "add_callee_ports nb meth xs g = Inr g' \<Longrightarrow>
     method_guard_mapping g' = method_guard_mapping g \<and> E g' = E g"
proof (induction xs arbitrary: g)
  case Nil
  then show ?case by simp
next
  case (Cons x xs)
  show ?case
  proof (cases "nb x")
    case True
    with Cons show ?thesis by simp
  next
    case False
    with Cons.prems obtain m where m: "get_raw_method meth x = Inr m"
      "add_callee_ports nb meth xs
         (g\<lparr>V := set_add (V g) x, method_callee_mapping := (method_callee_mapping g)(m \<mapsto> x)\<rparr>) = Inr g'"
      by (auto split: sum.splits if_splits)
    from Cons.IH [OF m(2)] show ?thesis by simp
  qed
qed

lemma add_nb_ifcs_props:
  assumes "add_nb_ifcs meth xs g = Inr g'" and "keys_are_ports (method_guard_mapping g)"
      and "distinct (E g)"
  shows "keys_are_ports (method_guard_mapping g') \<and> distinct (E g') \<and> set (E g) \<subseteq> set (E g')
         \<and> (\<forall>(m, r)\<in>set xs. (r, m) \<in> set (E g')
               \<and> isinstance_CalleePort m \<and> isinstance_CalleePort r)"
  using assms
proof (induction xs arbitrary: g)
  case Nil
  then show ?case by simp
next
  case (Cons x xs)
  obtain xm xr where x: "x = (xm, xr)" by (cases x)
  define g1 where "g1 = g\<lparr>V := set_add (set_add (V g) xm) xr,
                        E := set_add (E g) (xr, xm),
                        method_guard_mapping := (method_guard_mapping g)(xm \<mapsto> xr),
                        guard_method_mapping := (guard_method_mapping g)(xr \<mapsto> xm),
                        method_callee_mapping :=
                          (method_callee_mapping g)(meth xm \<mapsto> xm, meth xr \<mapsto> xr)\<rparr>"
  from Cons.prems(1) x have pm: "isinstance_CalleePort xm" and pr: "isinstance_CalleePort xr"
    by (auto simp: get_raw_method_def split: if_splits sum.splits)
  with Cons.prems(1) x have r: "add_nb_ifcs meth xs g1 = Inr g'"
    by (auto simp: get_raw_method_def g1_def split: if_splits)
  have k1: "keys_are_ports (method_guard_mapping g1)"
    using Cons.prems(2) pm by (auto simp: keys_are_ports_def g1_def)
  have d1: "distinct (E g1)" using Cons.prems(3) by (simp add: g1_def distinct_set_add)
  from Cons.IH [OF r k1 d1]
  have ih: "keys_are_ports (method_guard_mapping g')" "distinct (E g')" "set (E g1) \<subseteq> set (E g')"
    "\<forall>(m, r)\<in>set xs. (r, m) \<in> set (E g') \<and> isinstance_CalleePort m \<and> isinstance_CalleePort r"
    by auto
  have "(xr, xm) \<in> set (E g1)" by (simp add: g1_def)
  with ih(3) have e: "(xr, xm) \<in> set (E g')" by blast
  have "set (E g) \<subseteq> set (E g1)" by (auto simp: g1_def)
  with ih(3) have s: "set (E g) \<subseteq> set (E g')" by blast
  from ih(1) ih(2) s e ih(4) pm pr x show ?case by simp
qed

lemma add_edge_props:
  "method_guard_mapping (add_edge g a b) = method_guard_mapping g
   \<and> set (E g) \<subseteq> set (E (add_edge g a b)) \<and> (distinct (E g) \<longrightarrow> distinct (E (add_edge g a b)))"
  by (auto simp: add_edge_def distinct_set_add)

lemma add_constraints_props:
  "method_guard_mapping (add_constraints cs g) = method_guard_mapping g
   \<and> set (E g) \<subseteq> set (E (add_constraints cs g))
   \<and> (distinct (E g) \<longrightarrow> distinct (E (add_constraints cs g)))"
proof (induction cs arbitrary: g)
  case Nil
  then show ?case by simp
next
  case (Cons c cs)
  obtain a b where c: "c = (a, b)" by (cases c)
  let ?g1 = "if a \<in> set (V g) \<and> b \<in> set (V g) then add_edge g a b else g"
  have s: "method_guard_mapping ?g1 = method_guard_mapping g \<and> set (E g) \<subseteq> set (E ?g1)
           \<and> (distinct (E g) \<longrightarrow> distinct (E ?g1))"
    using add_edge_props [of g a b] by simp
  from Cons.IH [of ?g1] s c show ?case by auto
qed

lemma add_callee_constraints_props:
  "method_guard_mapping (add_callee_constraints cs g) = method_guard_mapping g
   \<and> set (E g) \<subseteq> set (E (add_callee_constraints cs g))
   \<and> (distinct (E g) \<longrightarrow> distinct (E (add_callee_constraints cs g)))"
proof (induction cs arbitrary: g)
  case Nil
  then show ?case by simp
next
  case (Cons c cs)
  obtain a b where c: "c = (a, b)" by (cases c)
  define a' where "a' = substitute (method_callee_mapping g) a"
  define b' where "b' = substitute (method_guard_mapping g) (substitute (method_callee_mapping g) b)"
  let ?g1 = "if a' \<in> set (V g) \<and> b' \<in> set (V g) then add_edge g a' b' else g"
  have s: "method_guard_mapping ?g1 = method_guard_mapping g \<and> set (E g) \<subseteq> set (E ?g1)
           \<and> (distinct (E g) \<longrightarrow> distinct (E ?g1))"
    using add_edge_props [of g a' b'] by simp
  have "add_callee_constraints (c # cs) g = add_callee_constraints cs ?g1"
    by (simp add: c Let_def a'_def b'_def)
  with Cons.IH [of ?g1] s show ?case by auto
qed

lemma build_graph_props:
  assumes "build_graph inp = Inr g"
  shows "keys_are_ports (method_guard_mapping g) \<and> distinct (E g)
         \<and> (\<forall>(m, r)\<in>set (top_level_nb_ifcs inp). (r, m) \<in> set (E g)
               \<and> isinstance_CalleePort m \<and> isinstance_CalleePort r)"
proof -
  define g0 where "g0 = \<lparr>V = remdups (filter (\<lambda>v. v \<notin> set (all_update_ff inp)) (final_upblks inp)),
                E = [], G = [], G_T = [],
                method_callee_mapping = Map.empty, method_guard_mapping = Map.empty,
                guard_method_mapping = Map.empty\<rparr>"
  from assms obtain g1 g2 where
    g1: "add_callee_ports (in_non_blocking_interface inp) (method_of inp)
           (top_level_callee_ports inp) g0 = Inr g1"
    and g2: "add_nb_ifcs (method_of inp) (top_level_nb_ifcs inp) g1 = Inr g2"
    and g: "g = add_callee_constraints (top_level_callee_constraints inp)
                        (add_constraints (all_constraints inp)
                           (g2\<lparr>G := map (\<lambda>v. (v, [])) (V g2),
                               G_T := map (\<lambda>v. (v, [])) (V g2)\<rparr>))"
    by (auto simp: build_graph_def Let_def g0_def split: sum.splits)
  from add_callee_ports_keeps [OF g1]
  have "keys_are_ports (method_guard_mapping g1)" "distinct (E g1)"
    by (simp_all add: g0_def keys_are_ports_def)
  from add_nb_ifcs_props [OF g2 this]
  have p2: "keys_are_ports (method_guard_mapping g2)" "distinct (E g2)"
    "\<forall>(m, r)\<in>set (top_level_nb_ifcs inp). (r, m) \<in> set (E g2)
               \<and> isinstance_CalleePort m \<and> isinstance_CalleePort r" by auto
  define g3 where "g3 = g2\<lparr>G := map (\<lambda>v. (v, [])) (V g2), G_T := map (\<lambda>v. (v, [])) (V g2)\<rparr>"
  have p3: "method_guard_mapping g3 = method_guard_mapping g2" "E g3 = E g2" by (simp_all add: g3_def)
  define g4 where "g4 = add_constraints (all_constraints inp) g3"
  from add_constraints_props [of "all_constraints inp" g3] p3 p2
  have p4: "method_guard_mapping g4 = method_guard_mapping g2" "set (E g2) \<subseteq> set (E g4)"
    "distinct (E g4)" by (auto simp: g4_def)
  from add_callee_constraints_props [of "top_level_callee_constraints inp" g4] p4 g
  have p5: "method_guard_mapping g = method_guard_mapping g2" "set (E g4) \<subseteq> set (E g)"
    "distinct (E g)" by (auto simp: g4_def g3_def)
  from p4(2) p5(2) have "set (E g2) \<subseteq> set (E g)" by blast
  with p2 p5 show ?thesis by auto
qed

subsection \<open>The update sweep\<close>

lemma update_sweep_trivial:
  assumes "update_sweep inp g comps preds is k = Inr upd"
  shows "(\<forall>i\<in>set is. i < length comps \<and> (\<exists>x. comps ! i = [x]))
         \<and> upd = map (\<lambda>i. Callable (hd (comps ! i))) is"
  using assms
proof (induction "is" arbitrary: upd k)
  case Nil
  then show ?case by simp
next
  case (Cons i js)
  from Cons.prems have il: "i < length comps" by (auto split: if_splits)
  have single: "\<exists>x. comps ! i = [x]"
  proof (rule ccontr)
    assume n: "\<not> (\<exists>x. comps ! i = [x])"
    with il Cons.prems obtain tmp blk where
      "synthesize_SCC (eq_signal inp) (read_signal inp) (exec_of inp) (name_of inp) (iter_objs inp)
         (iter_edges inp (E g)) (constraint_objs inp) (k + 1) (comps ! i) tmp = Inr blk"
      by (cases "comps ! i"; cases "tl (comps ! i)") (auto split: option.splits sum.splits)
    with synthesize_SCC_fails [of "eq_signal inp" "read_signal inp" "exec_of inp" "name_of inp"
         "iter_objs inp" "iter_edges inp (E g)" "constraint_objs inp" "k + 1" "comps ! i" tmp]
    show False by auto
  qed
  then obtain x where x: "comps ! i = [x]" by blast
  with il Cons.prems obtain rest where rest: "update_sweep inp g comps preds js k = Inr rest"
    "upd = Callable x # rest" by (auto split: sum.splits)
  from Cons.IH [OF rest(1)] x il rest(2) show ?case by simp
qed


subsection \<open>Positions under a map\<close>

lemma position_map_inj:
  "inj_on f (set xs) \<Longrightarrow> a \<in> set xs \<Longrightarrow> position (map f xs) (f a) = position xs a"
proof (induction xs)
  case Nil
  then show ?case by simp
next
  case (Cons x xs)
  show ?case
  proof (cases "a = x")
    case True
    then show ?thesis by simp
  next
    case False
    with Cons.prems have ax: "a \<in> set xs" and ne: "f a \<noteq> f x"
      by (auto simp: inj_on_def)
    from Cons.prems(1) have "inj_on f (set xs)" by (simp add: inj_on_def)
    from Cons.IH [OF this ax] False ne show ?thesis by simp
  qed
qed

lemma precedes_map_inj:
  assumes "inj_on f (set xs)" and "precedes xs a b"
  shows "precedes (map f xs) (f a) (f b)"
proof -
  from precedes_in [OF assms(2)] have "a \<in> set xs" "b \<in> set xs" by auto
  with assms(1) have "position (map f xs) (f a) = position xs a"
    "position (map f xs) (f b) = position xs b" by (simp_all add: position_map_inj)
  with assms(2) show ?thesis by (simp only: precedes_def)
qed

lemma precedes_Cons:
  "a \<noteq> c \<Longrightarrow> b \<noteq> c \<Longrightarrow> precedes xs a b \<Longrightarrow> precedes (c # xs) a b"
  by (auto simp: precedes_def split: option.splits)

subsection \<open>The pass as a whole\<close>

lemma pass_unfold:
  assumes "schedule_with_top_level_callee fuel inp = Some (Inr res)"
  shows "\<exists>g r st upd.
           build_graph inp = Inr g \<and> kosaraju (shuffle inp) g = Inr r
           \<and> topological_sort fuel (iter_ints inp) (iter_edges inp (E g))
                (method_guard_mapping g) (guard_method_mapping g)
                (length (SCCs r)) (v_SCC r) = Some (Inr st)
           \<and> update_sweep inp g (SCCs r) (scc_pred st) (scc_schedule st) 0 = Inr upd
           \<and> r_graph res = g \<and> r_sccs res = r \<and> r_scc_schedule res = scc_schedule st
           \<and> r_update_schedule res = upd \<and> r_schedule res = assemble inp upd
           \<and> r_schedule_no_method res = methodless (assemble inp upd)"
proof -
  from assms obtain g where g: "build_graph inp = Inr g"
    by (cases "build_graph inp") (auto simp: schedule_with_top_level_callee_def)
  from assms g obtain r where r: "kosaraju (shuffle inp) g = Inr r"
    by (cases "kosaraju (shuffle inp) g") (auto simp: schedule_with_top_level_callee_def)
  let ?ts = "topological_sort fuel (iter_ints inp) (iter_edges inp (E g))
                (method_guard_mapping g) (guard_method_mapping g)
                (length (SCCs r)) (v_SCC r)"
  from assms g r obtain st where st: "?ts = Some (Inr st)"
    by (cases ?ts; cases "the ?ts") (auto simp: schedule_with_top_level_callee_def)
  let ?us = "update_sweep inp g (SCCs r) (scc_pred st) (scc_schedule st) 0"
  from assms g r st obtain upd where upd: "?us = Inr upd"
    by (cases ?us) (auto simp: schedule_with_top_level_callee_def)
  from assms g r st upd have
    "r_graph res = g \<and> r_sccs res = r \<and> r_scc_schedule res = scc_schedule st
           \<and> r_update_schedule res = upd \<and> r_schedule res = assemble inp upd
           \<and> r_schedule_no_method res = methodless (assemble inp upd)"
    by (auto simp: schedule_with_top_level_callee_def Let_def split: sum.splits)
  with g r st upd show ?thesis by blast
qed

lemma pass_edges:
  assumes run: "schedule_with_top_level_callee fuel inp = Some (Inr res)"
      and ii: "set_iteration (iter_ints inp)" and ie: "set_iteration (iter_edges inp)"
      and xy: "(x, y) \<in> set (E (r_graph res))"
  shows "\<exists>a b. v_SCC (r_sccs res) x = Some a \<and> v_SCC (r_sccs res) y = Some b
           \<and> SCCs (r_sccs res) ! a = [x] \<and> SCCs (r_sccs res) ! b = [y]
           \<and> (a \<noteq> b \<longrightarrow> precedes (r_scc_schedule res) a b
                  \<and> precedes (r_update_schedule res) (Callable x) (Callable y)
                  \<and> precedes (r_schedule res) (Callable x) (Callable y))"
proof -
  from pass_unfold [OF run] obtain g r st upd where
    g: "build_graph inp = Inr g" and r: "kosaraju (shuffle inp) g = Inr r"
    and st: "topological_sort fuel (iter_ints inp) (iter_edges inp (E g))
                (method_guard_mapping g) (guard_method_mapping g)
                (length (SCCs r)) (v_SCC r) = Some (Inr st)"
    and upd: "update_sweep inp g (SCCs r) (scc_pred st) (scc_schedule st) 0 = Inr upd"
    and res: "r_graph res = g" "r_sccs res = r" "r_scc_schedule res = scc_schedule st"
      "r_update_schedule res = upd" "r_schedule res = assemble inp upd"
    by blast
  let ?n = "length (SCCs r)" and ?sched = "scc_schedule st"
  from build_graph_props [OF g] have kp: "keys_are_ports (method_guard_mapping g)"
    and de: "distinct (E g)" by auto
  from ie de have se: "set (iter_edges inp (E g)) = set (E g)" by (simp add: set_iteration_def)
  note tc = topological_sort_correct [OF st kp ii]
  from tc have ds: "distinct ?sched" by (rule conjunct1)
  from tc have all: "set ?sched = {..<?n}" by (elim conjE)
  from tc have ed: "\<forall>(x, y)\<in>set (iter_edges inp (E g)). \<exists>a b. v_SCC r x = Some a \<and> v_SCC r y = Some b
                \<and> (a \<noteq> b \<longrightarrow> precedes ?sched a b)" by (elim conjE)
  from xy res(1) se have "(x, y) \<in> set (iter_edges inp (E g))" by simp
  with ed obtain a b where ab: "v_SCC r x = Some a" "v_SCC r y = Some b"
    "a \<noteq> b \<longrightarrow> precedes ?sched a b" by blast
  from kosaraju_partition [OF r]
  have p1: "\<forall>v k. v_SCC r v = Some k \<longrightarrow> k < ?n \<and> v \<in> set (SCCs r ! k)"
    by (rule conjunct1)
  from kosaraju_partition [OF r]
  have p2: "\<forall>k<?n. \<forall>v\<in>set (SCCs r ! k). v_SCC r v = Some k"
    by (rule conjunct2)
  from p1 ab have an: "a < ?n" "x \<in> set (SCCs r ! a)" and bn: "b < ?n" "y \<in> set (SCCs r ! b)"
    by blast+
  from update_sweep_trivial [OF upd]
  have tr: "\<forall>i\<in>set ?sched. \<exists>z. SCCs r ! i = [z]" by blast
  from update_sweep_trivial [OF upd]
  have um: "upd = map (\<lambda>i. Callable (hd (SCCs r ! i))) ?sched" by (rule conjunct2)
  from an(1) bn(1) all have ain: "a \<in> set ?sched" and bin: "b \<in> set ?sched" by auto
  from tr ain obtain za where "SCCs r ! a = [za]" by blast
  with an(2) have ca: "SCCs r ! a = [x]" by simp
  from tr bin obtain zb where "SCCs r ! b = [zb]" by blast
  with bn(2) have cb: "SCCs r ! b = [y]" by simp
  let ?f = "\<lambda>i. Callable (hd (SCCs r ! i))"
  have inj: "inj_on ?f (set ?sched)"
  proof (rule inj_onI)
    fix i j assume i: "i \<in> set ?sched" and j: "j \<in> set ?sched" and e: "?f i = ?f j"
    from tr i obtain zi where zi: "SCCs r ! i = [zi]" by blast
    from tr j obtain zj where zj: "SCCs r ! j = [zj]" by blast
    from e zi zj have z: "zi = zj" by simp
    from i all have "i < ?n" by simp
    with p2 have "\<forall>v\<in>set (SCCs r ! i). v_SCC r v = Some i" by blast
    with zi have vi: "v_SCC r zi = Some i" by simp
    from j all have "j < ?n" by simp
    with p2 have "\<forall>v\<in>set (SCCs r ! j). v_SCC r v = Some j" by blast
    with zj have "v_SCC r zj = Some j" by simp
    with vi z show "i = j" by simp
  qed
  have "a \<noteq> b \<longrightarrow> precedes ?sched a b \<and> precedes upd (Callable x) (Callable y)
                  \<and> precedes (assemble inp upd) (Callable x) (Callable y)"
  proof
    assume "a \<noteq> b"
    with ab(3) have ps: "precedes ?sched a b" by simp
    from precedes_map_inj [OF inj ps] ca cb um
    have pu: "precedes upd (Callable x) (Callable y)" by simp
    then have "precedes (upd @ ((if line_trace_on inp then [PrintLineTrace] else [])
       @ map Callable (schedule_ff inp)
       @ (if has_vcd_func inp then [VcdFunc] else [])
       @ (if has_collect_text_sigs inp then [CollectTextSigs] else [])
       @ map Callable (schedule_posedge_flip inp))) (Callable x) (Callable y)"
      by (rule precedes_append_old)
    then have "precedes (assemble inp upd) (Callable x) (Callable y)"
      unfolding assemble_def by (simp add: precedes_Cons)
    with ps pu show "precedes ?sched a b \<and> precedes upd (Callable x) (Callable y)
                  \<and> precedes (assemble inp upd) (Callable x) (Callable y)" by simp
  qed
  with ab(1) ab(2) ca cb res show ?thesis by simp
qed

subsection \<open>The topological sort returns\<close>

lemma kahn_inv_bound:
  assumes "kahn_inv n gnew st"
  shows "length (scc_schedule st) + length (kQ st) \<le> n"
proof -
  from assms have d: "distinct (scc_schedule st @ kQ st)"
    and s: "set (scc_schedule st @ kQ st) \<subseteq> {..<n}"
    by (auto simp: kahn_inv_def)
  from d have "length (scc_schedule st @ kQ st) = card (set (scc_schedule st @ kQ st))"
    by (simp only: distinct_card)
  also from s have "\<dots> \<le> card {..<n}" by (intro card_mono) auto
  finally show ?thesis by simp
qed

lemma kahn_iter_schedule:
  assumes "kahn_inv n gnew st" and "gnew_ok n gnew" and "kQ st = m # q"
      and "keys_are_ports mgm" and "set_iteration iter"
      and "kahn_iter iter mgm gmm gnew st = Inr st'"
  shows "scc_schedule st' = scc_schedule st @ [m]"
proof -
  from assms(1) assms(3) have mn: "m < n" by (auto simp: kahn_inv_def)
  from assms(2) mn obtain s where s: "gnew m = Some s" "distinct s" "set s \<subseteq> {..<n}"
    unfolding gnew_ok_def by blast
  from assms(5) s(2) have its: "distinct (iter s)" "set (iter s) = set s"
    by (auto simp: set_iteration_def)
  define st1 where "st1 = st\<lparr>kQ := q, ku := Some m, scc_schedule := scc_schedule st @ [m]\<rparr>"
  from assms(1) have cnt: "\<forall>b<n. kInD st b \<noteq> None" by (simp add: kahn_inv_def)
  have "\<forall>v\<in>set (iter s). kInD st1 v \<noteq> None"
    using cnt s(3) its(2) by (auto simp: st1_def)
  from drain_result [OF its(1) this, of m] obtain st2 where
    "drain m (iter s) st1 = Inr st2" "scc_schedule st2 = scc_schedule st1" by blast
  moreover have "kahn_iter iter mgm gmm gnew st = drain m (iter s) st1"
    using assms(3) assms(4) s(1) by (simp add: kahn_iter_def preferred_ports st1_def)
  ultimately show ?thesis using assms(6) by (simp add: st1_def)
qed

lemma kahn_loop_total:
  assumes "kahn_inv n gnew st" and "gnew_ok n gnew" and "keys_are_ports mgm"
      and "set_iteration iter" and "n - length (scc_schedule st) \<le> fuel"
  shows "\<exists>st'. kahn_loop fuel iter mgm gmm gnew st = Some (Inr st')"
  using assms
proof (induction fuel arbitrary: st)
  case 0
  from kahn_inv_bound [OF "0.prems"(1)] "0.prems"(5) have "length (kQ st) = 0" by arith
  then have "kQ st = []" by simp
  then show ?case by simp
next
  case (Suc fuel)
  show ?case
  proof (cases "kQ st")
    case Nil
    then show ?thesis by simp
  next
    case (Cons m q)
    from kahn_iter_inv [OF Suc.prems(1) Suc.prems(2) Cons Suc.prems(3) Suc.prems(4), of gmm]
    obtain st1 where st1: "kahn_iter iter mgm gmm gnew st = Inr st1" "kahn_inv n gnew st1" by blast
    from kahn_iter_schedule [OF Suc.prems(1) Suc.prems(2) Cons Suc.prems(3) Suc.prems(4) st1(1)]
    have "length (scc_schedule st1) = Suc (length (scc_schedule st))" by simp
    with Suc.prems(5) have "n - length (scc_schedule st1) \<le> fuel" by simp
    from Suc.IH [OF st1(2) Suc.prems(2) Suc.prems(3) Suc.prems(4) this]
    obtain st' where "kahn_loop fuel iter mgm gmm gnew st1 = Some (Inr st')" by blast
    with Cons st1(1) show ?thesis by simp
  qed
qed

lemma topological_sort_total:
  assumes "keys_are_ports mgm" and "set_iteration iter" and "n \<le> fuel"
  shows "topological_sort fuel iter edges mgm gmm n vscc \<noteq> None"
proof (cases "condense vscc edges (condensed_init n)")
  case (Inl e)
  then show ?thesis by (simp add: topological_sort_def)
next
  case (Inr c)
  from condense_ok [OF cond_ok_init Inr] have ok: "cond_ok n c" by (rule conjunct1)
  then have g: "gnew_ok n (G_new c)" by (simp add: cond_ok_def)
  have "n - length (scc_schedule (kahn_init n c)) \<le> fuel"
    using assms(3) by (simp add: kahn_init_def Let_def)
  from kahn_loop_total [OF kahn_init_inv [OF ok] g assms(1) assms(2) this, of gmm]
  obtain st' where "kahn_loop fuel iter mgm gmm (G_new c) (kahn_init n c) = Some (Inr st')" by blast
  with Inr show ?thesis by (simp add: topological_sort_def)
qed

text \<open>
  The pass returns, with a schedule or with an exception, once the topological sort may
  take as many iterations as there are components.
\<close>

lemma pass_returns:
  assumes "set_iteration (iter_ints inp)"
  shows "\<exists>fuel. \<forall>k\<ge>fuel. schedule_with_top_level_callee k inp \<noteq> None"
proof (cases "build_graph inp")
  case (Inl e)
  then show ?thesis by (simp add: schedule_with_top_level_callee_def)
next
  case g: (Inr g)
  show ?thesis
  proof (cases "kosaraju (shuffle inp) g")
    case (Inl e)
    with g show ?thesis by (simp add: schedule_with_top_level_callee_def)
  next
    case r: (Inr r)
    from build_graph_props [OF g] have kp: "keys_are_ports (method_guard_mapping g)"
      by (rule conjunct1)
    have "\<forall>k\<ge>length (SCCs r). schedule_with_top_level_callee k inp \<noteq> None"
    proof (intro allI impI)
      fix k assume "length (SCCs r) \<le> k"
      from topological_sort_total [OF kp assms this]
      have "topological_sort k (iter_ints inp) (iter_edges inp (E g))
              (method_guard_mapping g) (guard_method_mapping g) (length (SCCs r)) (v_SCC r) \<noteq> None" .
      with g r show "schedule_with_top_level_callee k inp \<noteq> None"
        by (auto simp: schedule_with_top_level_callee_def Let_def split: sum.splits option.splits)
    qed
    then show ?thesis by blast
  qed
qed

subsection \<open>The claims about the schedule\<close>

lemma result_cases:
  "(case x of Some (Inr r) \<Rightarrow> P r | _ \<Rightarrow> False) \<Longrightarrow> \<exists>r. x = Some (Inr r) \<and> P r"
  by (auto split: option.splits sum.splits)

lemma set_iteration_id: "set_iteration (\<lambda>xs. xs)"
  by (simp add: set_iteration_def)

text \<open>
  C1.  Whenever the pass returns a schedule, every edge \<open>(x, y)\<close> of the constructed
  edge set \<open>E\<close> has both endpoints in a component, and when the components differ the
  component of \<open>x\<close> stands at a strictly earlier position of \<open>scc_schedule\<close> than the
  component of \<open>y\<close>, and \<open>x\<close> before \<open>y\<close> in the update sweep.  This holds for every
  input and for every order in which the sets \<open>E\<close> and \<open>G_new[u]\<close> are iterated.
\<close>

theorem scc_schedule_topological:
  assumes "schedule_with_top_level_callee fuel inp = Some (Inr res)"
      and "set_iteration (iter_ints inp)" and "set_iteration (iter_edges inp)"
      and "(x, y) \<in> set (E (r_graph res))"
  shows "\<exists>a b. v_SCC (r_sccs res) x = Some a \<and> v_SCC (r_sccs res) y = Some b
           \<and> (a \<noteq> b \<longrightarrow> precedes (r_scc_schedule res) a b
                  \<and> precedes (r_update_schedule res) (Callable x) (Callable y))"
proof -
  from pass_edges [OF assms] obtain a b where
    "v_SCC (r_sccs res) x = Some a" "v_SCC (r_sccs res) y = Some b"
    "a \<noteq> b \<longrightarrow> precedes (r_scc_schedule res) a b
                  \<and> precedes (r_update_schedule res) (Callable x) (Callable y)
                  \<and> precedes (r_schedule res) (Callable x) (Callable y)"
    by blast
  then show ?thesis by blast
qed

text \<open>Scenario S1: three blocks in a chain.\<close>

lemma S1_run:
  "(case schedule_with_top_level_callee 10 S1_input of
      Some (Inr res) \<Rightarrow>
        (Func 0, Func 1) \<in> set (E (r_graph res))
        \<and> v_SCC (r_sccs res) (Func 0) = Some 0 \<and> v_SCC (r_sccs res) (Func 1) = Some 1
        \<and> r_scc_schedule res = [0, 1, 2]
        \<and> r_update_schedule res = [Callable (Func 0), Callable (Func 1), Callable (Func 2)]
    | _ \<Rightarrow> False)"
  by code_simp

theorem scc_schedule_topological_witness:
  "\<exists>res. schedule_with_top_level_callee 10 S1_input = Some (Inr res)
     \<and> (Func 0, Func 1) \<in> set (E (r_graph res))
     \<and> r_scc_schedule res = [0, 1, 2]
     \<and> precedes (r_scc_schedule res) 0 1
     \<and> precedes (r_update_schedule res) (Callable (Func 0)) (Callable (Func 1))"
proof -
  from result_cases [OF S1_run] obtain res where
    run: "schedule_with_top_level_callee 10 S1_input = Some (Inr res)"
    and e: "(Func 0, Func 1) \<in> set (E (r_graph res))"
    and v: "v_SCC (r_sccs res) (Func 0) = Some 0" "v_SCC (r_sccs res) (Func 1) = Some 1"
    and s: "r_scc_schedule res = [0, 1, 2]"
    by blast
  have ii: "set_iteration (iter_ints S1_input)" and ie: "set_iteration (iter_edges S1_input)"
    by (simp_all add: S1_input_def plain_input_def set_iteration_id)
  from scc_schedule_topological [OF run ii ie e] v
  have "precedes (r_scc_schedule res) 0 1
        \<and> precedes (r_update_schedule res) (Callable (Func 0)) (Callable (Func 1))"
    by auto
  with run e s show ?thesis by blast
qed

text \<open>
  C6.  For every top-level non-blocking callee interface with method \<open>m\<close> and guard
  \<open>r\<close>, two different ports, the edge \<open>(r, m)\<close> is in \<open>E\<close>, and whenever the pass returns a
  schedule \<open>r\<close> stands strictly before \<open>m\<close> in the assembled schedule.  Neither of them is
  part of the methodless projection, which holds no callee port.
\<close>

theorem guard_precedes_method:
  assumes "schedule_with_top_level_callee fuel inp = Some (Inr res)"
      and "set_iteration (iter_ints inp)" and "set_iteration (iter_edges inp)"
      and "(m, r) \<in> set (top_level_nb_ifcs inp)" and "m \<noteq> r"
  shows "(r, m) \<in> set (E (r_graph res))
         \<and> precedes (r_schedule res) (Callable r) (Callable m)
         \<and> Callable r \<notin> set (r_schedule_no_method res)
         \<and> Callable m \<notin> set (r_schedule_no_method res)"
proof -
  from pass_unfold [OF assms(1)] obtain g where g: "build_graph inp = Inr g" "r_graph res = g"
    and nm: "r_schedule_no_method res = methodless (r_schedule res)" by auto
  from build_graph_props [OF g(1)] assms(4)
  have e: "(r, m) \<in> set (E g)" and pm: "isinstance_CalleePort m" and pr: "isinstance_CalleePort r"
    by auto
  from e g(2) have e': "(r, m) \<in> set (E (r_graph res))" by simp
  from pass_edges [OF assms(1) assms(2) assms(3) e'] obtain a b where
    ab: "SCCs (r_sccs res) ! a = [r]" "SCCs (r_sccs res) ! b = [m]"
    "a \<noteq> b \<longrightarrow> precedes (r_scc_schedule res) a b
                  \<and> precedes (r_update_schedule res) (Callable r) (Callable m)
                  \<and> precedes (r_schedule res) (Callable r) (Callable m)"
    by blast
  from ab(1) ab(2) assms(5) have "a \<noteq> b" by auto
  with ab(3) have "precedes (r_schedule res) (Callable r) (Callable m)" by simp
  with e' pm pr nm show ?thesis by (simp add: methodless_def)
qed

text \<open>Scenario S3: one block and one interface.\<close>

lemma S3_run:
  "(case schedule_with_top_level_callee 10 S3_input of
      Some (Inr res) \<Rightarrow>
        r_schedule res = [ClearClTrace, Callable (Func 0), Callable (Port 1), Callable (Port 0),
                          PrintLineTrace]
        \<and> r_schedule_no_method res = [ClearClTrace, Callable (Func 0), PrintLineTrace]
    | _ \<Rightarrow> False)"
  by code_simp

theorem guard_precedes_method_witness:
  "\<exists>res. schedule_with_top_level_callee 10 S3_input = Some (Inr res)
     \<and> r_schedule res = [ClearClTrace, Callable (Func 0), Callable (Port 1), Callable (Port 0),
                          PrintLineTrace]
     \<and> (Port 1, Port 0) \<in> set (E (r_graph res))
     \<and> precedes (r_schedule res) (Callable (Port 1)) (Callable (Port 0))"
proof -
  from result_cases [OF S3_run] obtain res where
    run: "schedule_with_top_level_callee 10 S3_input = Some (Inr res)"
    and s: "r_schedule res = [ClearClTrace, Callable (Func 0), Callable (Port 1), Callable (Port 0),
                          PrintLineTrace]"
    by blast
  have ii: "set_iteration (iter_ints S3_input)" and ie: "set_iteration (iter_edges S3_input)"
    by (simp_all add: S3_input_def plain_input_def set_iteration_id)
  have i: "(Port 0, Port 1) \<in> set (top_level_nb_ifcs S3_input)"
    by (simp add: S3_input_def plain_input_def)
  have ne: "Port 0 \<noteq> Port 1" by simp
  from guard_precedes_method [OF run ii ie i ne] run s show ?thesis by blast
qed

text \<open>
  The test of the tie-break looks the index of a component up in mappings whose keys are
  callee ports, so it holds for every element of the frontier and the first one is
  popped.
\<close>

lemma pop_first_preferred:
  "keys_are_ports mgm \<Longrightarrow> pop_first (preferred mgm gmm) (m # q) = Some (m, q)"
  by (simp add: preferred_ports)

text \<open>
  C5 says that an update block of the frontier is scheduled before any method or guard
  of the frontier.  On a root with one update block \<open>U\<close> (\<open>Func 0\<close>) and one non-blocking
  interface, method \<open>m\<close> (\<open>Port 0\<close>) and guard \<open>r\<close> (\<open>Port 1\<close>), visited in the order
  \<open>U, m, r\<close>, the components are \<open>r, m, U\<close>, the frontier starts as \<open>[0, 2]\<close>, and the pass
  schedules the guard first although the update block is in the frontier.
\<close>

theorem tie_break_schedules_guard_first:
  "(case schedule_with_top_level_callee 10 tie_break_input of
      Some (Inr res) \<Rightarrow>
        SCCs (r_sccs res) = [[Port 1], [Port 0], [Func 0]]
        \<and> r_scc_schedule res = [0, 2, 1]
        \<and> r_update_schedule res = [Callable (Port 1), Callable (Func 0), Callable (Port 0)]
    | _ \<Rightarrow> False)"
  by code_simp

section \<open>The super-block inside the pass\<close>

text \<open>
  A schedule returned by the autotick pass is made of trivial components only: the
  synthesis of a super-block always raises, and the update sweep reaches every
  component.
\<close>

lemma pass_components_trivial:
  assumes run: "schedule_with_top_level_callee fuel inp = Some (Inr res)"
      and ii: "set_iteration (iter_ints inp)"
  shows "\<forall>i<length (SCCs (r_sccs res)). \<exists>z. SCCs (r_sccs res) ! i = [z]"
proof -
  from pass_unfold [OF run] obtain g r st upd where
    g: "build_graph inp = Inr g" and r: "kosaraju (shuffle inp) g = Inr r"
    and st: "topological_sort fuel (iter_ints inp) (iter_edges inp (E g))
                (method_guard_mapping g) (guard_method_mapping g)
                (length (SCCs r)) (v_SCC r) = Some (Inr st)"
    and upd: "update_sweep inp g (SCCs r) (scc_pred st) (scc_schedule st) 0 = Inr upd"
    and res: "r_sccs res = r"
    by blast
  from build_graph_props [OF g] have kp: "keys_are_ports (method_guard_mapping g)"
    by (rule conjunct1)
  note tc = topological_sort_correct [OF st kp ii]
  from tc have all: "set (scc_schedule st) = {..<length (SCCs r)}" by (elim conjE)
  from update_sweep_trivial [OF upd]
  have tr: "\<forall>i\<in>set (scc_schedule st). \<exists>z. SCCs r ! i = [z]" by blast
  with all res show ?thesis by simp
qed

text \<open>
  The scenarios S2 and S6 as inputs of the pass: one component of two blocks, so the
  pass returns no schedule, however many iterations the topological sort may take.
\<close>

lemma S2_components:
  "(case build_graph S2_input of
      Inr g \<Rightarrow> (case kosaraju (shuffle S2_input) g of
                  Inr r \<Rightarrow> length (SCCs r) = 1 \<and> length (SCCs r ! 0) = 2
                | Inl e \<Rightarrow> False)
    | Inl e \<Rightarrow> False)"
  by code_simp

lemma S6_components:
  "(case build_graph S6_input of
      Inr g \<Rightarrow> (case kosaraju (shuffle S6_input) g of
                  Inr r \<Rightarrow> length (SCCs r) = 1 \<and> length (SCCs r ! 0) = 2
                | Inl e \<Rightarrow> False)
    | Inl e \<Rightarrow> False)"
  by code_simp

lemma S2_no_schedule: "schedule_with_top_level_callee fuel S2_input \<noteq> Some (Inr res)"
proof
  assume run: "schedule_with_top_level_callee fuel S2_input = Some (Inr res)"
  have ii: "set_iteration (iter_ints S2_input)" by (simp add: S2_input_def set_iteration_def)
  from pass_unfold [OF run] obtain g r where
    g: "build_graph S2_input = Inr g" and r: "kosaraju (shuffle S2_input) g = Inr r"
    and res: "r_sccs res = r" by blast
  from S2_components g r have "length (SCCs r) = 1" "length (SCCs r ! 0) = 2" by simp_all
  with pass_components_trivial [OF run ii] res show False by auto
qed

lemma S6_no_schedule: "schedule_with_top_level_callee fuel S6_input \<noteq> Some (Inr res)"
proof
  assume run: "schedule_with_top_level_callee fuel S6_input = Some (Inr res)"
  have ii: "set_iteration (iter_ints S6_input)" by (simp add: S6_input_def set_iteration_def)
  from pass_unfold [OF run] obtain g r where
    g: "build_graph S6_input = Inr g" and r: "kosaraju (shuffle S6_input) g = Inr r"
    and res: "r_sccs res = r" by blast
  from S6_components g r have "length (SCCs r) = 1" "length (SCCs r ! 0) = 2" by simp_all
  with pass_components_trivial [OF run ii] res show False by auto
qed

lemma S2_sweep: "sweep S2_scc (x, y) = (1, x)"
  by (simp add: sweep_def S2_scc_def S2_exec_def)

lemma S6_sweeps: "(sweep S6_scc ^^ i) x = x + i"
  by (induction i arbitrary: x) (simp_all add: sweep_def S6_exec_def S6_scc_def)

lemma S6_never_stable:
  "\<not> sweep_raises S6_scc ((sweep S6_scc ^^ i) 0)
   \<and> \<not> unchanged (\<lambda>v x t. x = t) S6_rd [Signal ''s.x'' BitsT]
         ((sweep S6_scc ^^ i) 0) ((sweep S6_scc ^^ Suc i) 0)"
proof -
  have "\<not> sweep_raises S6_scc ((sweep S6_scc ^^ i) 0)"
    by (simp add: sweep_raises_def S6_exec_def S6_scc_def)
  moreover have "\<not> unchanged (\<lambda>v x t. x = t) S6_rd [Signal ''s.x'' BitsT]
         ((sweep S6_scc ^^ i) 0) ((sweep S6_scc ^^ Suc i) 0)"
    by (simp add: S6_sweeps unchanged_def triggers_def S6_rd_def del: funpow.simps)
  ultimately show ?thesis by simp
qed

subsection \<open>C2: a component that never stabilises\<close>

text \<open>
  C2 says that a non-trivial SCC whose trigger variables never all stabilise makes the
  synthesized super-block raise \<open>UpblkCyclicError\<close>, with the names of its members in
  the message.  In scenario S6 no block raises and every sweep of the two blocks
  changes the trigger \<open>s.x\<close>; on this input the autotick pass raises \<open>NameError\<close> for the
  unbound global \<open>Bits\<close> while it generates the snapshot statements, and returns no
  schedule: no super-block exists that could detect the loop.
\<close>

theorem divergent_cycle_raises_NameError:
  "(\<forall>i. \<not> sweep_raises S6_scc ((sweep S6_scc ^^ i) 0)
        \<and> \<not> unchanged (\<lambda>v x t. x = t) S6_rd [Signal ''s.x'' BitsT]
              ((sweep S6_scc ^^ i) 0) ((sweep S6_scc ^^ Suc i) 0))
   \<and> (case schedule_with_top_level_callee 10 S6_input of
         Some (Inl e) \<Rightarrow> e = NameError ''Bits'' | _ \<Rightarrow> False)
   \<and> schedule_with_top_level_callee fuel S6_input \<noteq> Some (Inr res)"
proof -
  have "(case schedule_with_top_level_callee 10 S6_input of
         Some (Inl e) \<Rightarrow> e = NameError ''Bits'' | _ \<Rightarrow> False)"
    by code_simp
  with S6_never_stable S6_no_schedule show ?thesis by blast
qed

subsection \<open>C9: a component that stabilises\<close>

text \<open>
  C9 says that the super-block of a component whose blocks leave the trigger variables
  unchanged returns one iteration after they have stabilised, after two iterations in
  scenario S2.  In S2 the first sweep changes \<open>s.x\<close> and the second leaves it as it
  is; on this input the autotick pass ends with \<open>NameError\<close> and returns no schedule,
  and the synthesis of a super-block yields no block for any component at all, so
  nothing runs for two iterations.
\<close>

theorem two_node_cycle_gets_no_superblock:
  "\<not> unchanged (\<lambda>v x t. x = t) S2_rd [Signal ''s.x'' BitsT] (0, 0) (sweep S2_scc (0, 0))
   \<and> unchanged (\<lambda>v x t. x = t) S2_rd [Signal ''s.x'' BitsT]
        (sweep S2_scc (0, 0)) (sweep S2_scc (sweep S2_scc (0, 0)))
   \<and> (case schedule_with_top_level_callee 1 S2_input of
         Some (Inl e) \<Rightarrow> e = NameError ''Bits'' | _ \<Rightarrow> False)
   \<and> schedule_with_top_level_callee fuel S2_input \<noteq> Some (Inr res)
   \<and> synthesize_SCC py_eq rd ex nm iter edges cobjs scc_id scc tmp_schedule \<noteq> Inr blk"
proof -
  have "\<not> unchanged (\<lambda>v x t. x = t) S2_rd [Signal ''s.x'' BitsT] (0, 0) (sweep S2_scc (0, 0))"
    by (simp add: S2_sweep unchanged_def triggers_def S2_rd_def)
  moreover have "unchanged (\<lambda>v x t. x = t) S2_rd [Signal ''s.x'' BitsT]
        (sweep S2_scc (0, 0)) (sweep S2_scc (sweep S2_scc (0, 0)))"
    by (simp add: S2_sweep unchanged_def triggers_def S2_rd_def)
  moreover have "(case schedule_with_top_level_callee 1 S2_input of
         Some (Inl e) \<Rightarrow> e = NameError ''Bits'' | _ \<Rightarrow> False)"
    by code_simp
  moreover have "synthesize_SCC py_eq rd ex nm iter edges cobjs scc_id scc tmp_schedule \<noteq> Inr blk"
    using synthesize_SCC_fails [of py_eq rd ex nm iter edges cobjs scc_id scc tmp_schedule] by auto
  ultimately show ?thesis using S2_no_schedule by blast
qed

end
